theory Spec2Isabelle
  imports Main
begin

section \<open>Text\<close>

text \<open>
  A Python \<^verbatim>\<open>str\<close> is a sequence of Unicode code points. The normalizer replaces
  code points above 255 (U+2019 and others), so a text is a list of code points given as
  natural numbers; \<open>ustr\<close> writes an ASCII literal as such a list.
\<close>

type_synonym codepoint = nat
type_synonym ustring = "codepoint list"

definition ustr :: "string \<Rightarrow> ustring" where
  "ustr s = map of_char s"

text \<open>\<^verbatim>\<open>s.startswith(p)\<close>; also a literal of a pattern tried at the current position.\<close>

fun starts_with :: "ustring \<Rightarrow> ustring \<Rightarrow> bool" where
  "starts_with [] s = True"
| "starts_with (p # ps) [] = False"
| "starts_with (p # ps) (c # cs) = (p = c \<and> starts_with ps cs)"

text \<open>
  \<^verbatim>\<open>s.replace(old, new)\<close>: the occurrences of \<open>old\<close> are replaced from left to right, the
  search going on behind each replaced occurrence. (For an empty \<open>old\<close> Python puts
  \<open>new\<close> before every character and at the end.)
\<close>

function replace :: "ustring \<Rightarrow> ustring \<Rightarrow> ustring \<Rightarrow> ustring" where
  "replace [] new s = new @ concat (map (\<lambda>c. c # new) s)"
| "replace (p # ps) new [] = []"
| "replace (p # ps) new (c # cs) =
     (if starts_with (p # ps) (c # cs)
      then new @ replace (p # ps) new (drop (length ps) cs)
      else c # replace (p # ps) new cs)"
  by pat_completeness auto
termination
  by (relation "measure (\<lambda>(old, new, s). length s)") auto

section \<open>Normalizer: \<^verbatim>\<open>fix_xml_encoding\<close>\<close>

text \<open>
  The pattern of line 27 is
  \<^verbatim>\<open>&(?!amp;|lt;|gt;|quot;|apos;|#\d+;|#x[0-9a-fA-F]+;)\<close>.
  \<open>one_or_more_then_semi cls s\<close> is the alternative \<^verbatim>\<open>X+;\<close> of the lookahead tried at \<open>s\<close>:
  some non-empty run of characters of the class \<open>cls\<close>, then a semicolon.
  On a \<^verbatim>\<open>str\<close> pattern \<^verbatim>\<open>\d\<close> is any Unicode decimal digit; that table belongs to the
  Python runtime, so the class is the parameter \<open>isdigit\<close>.
\<close>

fun one_or_more_then_semi :: "(codepoint \<Rightarrow> bool) \<Rightarrow> ustring \<Rightarrow> bool" where
  "one_or_more_then_semi cls [] = False"
| "one_or_more_then_semi cls (c # cs) =
     (cls c \<and> (starts_with (ustr '';'') cs \<or> one_or_more_then_semi cls cs))"

definition hex_digit :: "codepoint \<Rightarrow> bool" where
  "hex_digit c = ((0x30 \<le> c \<and> c \<le> 0x39) \<or> (0x61 \<le> c \<and> c \<le> 0x66) \<or> (0x41 \<le> c \<and> c \<le> 0x46))"

definition entity_follows :: "(codepoint \<Rightarrow> bool) \<Rightarrow> ustring \<Rightarrow> bool" where
  "entity_follows isdigit s =
     (starts_with (ustr ''amp;'') s \<or> starts_with (ustr ''lt;'') s \<or>
      starts_with (ustr ''gt;'') s \<or> starts_with (ustr ''quot;'') s \<or>
      starts_with (ustr ''apos;'') s \<or>
      (starts_with (ustr ''#'') s \<and> one_or_more_then_semi isdigit (drop 1 s)) \<or>
      (starts_with (ustr ''#x'') s \<and> one_or_more_then_semi hex_digit (drop 2 s)))"

text \<open>
  \<^verbatim>\<open>re.sub(pattern, '&amp;', s)\<close>: a match is one \<^verbatim>\<open>&\<close> (the lookahead takes no
  character), so the text is rewritten character by character.
\<close>

fun escape_bare_ampersands :: "(codepoint \<Rightarrow> bool) \<Rightarrow> ustring \<Rightarrow> ustring" where
  "escape_bare_ampersands isdigit [] = []"
| "escape_bare_ampersands isdigit (c # cs) =
     (if c = 0x26 \<and> \<not> entity_follows isdigit cs
      then ustr ''&amp;'' @ escape_bare_ampersands isdigit cs
      else c # escape_bare_ampersands isdigit cs)"

text \<open>Lines 30 to 43, one \<^verbatim>\<open>replace\<close> per line of the source, in the source's order.\<close>

definition fix_other_issues :: "ustring \<Rightarrow> ustring" where
  "fix_other_issues s0 =
     (let s = replace (ustr ''&nbsp;'') (ustr '' '') s0;
          s = replace [0x2019] [0x27] s;
          s = replace [0x201C] [0x22] s;
          s = replace [0x201D] [0x22] s;
          s = replace [0x2013] (ustr ''-'') s;
          s = replace [0x2014] (ustr ''-'') s;
          s = replace [0xA0] (ustr '' '') s;
          s = replace [0x2026] (ustr ''...'') s;
          s = replace [0x2018] [0x27] s;
          s = replace [0x2019] [0x27] s;
          s = replace [0x201C] [0x22] s;
          s = replace [0x201D] [0x22] s
      in s)"

definition fix_xml_encoding :: "(codepoint \<Rightarrow> bool) \<Rightarrow> ustring \<Rightarrow> ustring" where
  "fix_xml_encoding isdigit xml_content =
     fix_other_issues (escape_bare_ampersands isdigit xml_content)"

section \<open>The Python runtime\<close>

text \<open>
  The converter calls the file system, the XML parser of \<^verbatim>\<open>xml.etree\<close>,
  \<^verbatim>\<open>pathlib\<close>, \<^verbatim>\<open>html.unescape\<close>, \<^verbatim>\<open>print\<close> and the character tables of \<^verbatim>\<open>re\<close>. None of
  them is code of the repository: they are the fields of a \<open>runtime\<close>, and every definition
  below takes the runtime as its first argument. An exception is a value: \<open>ParseError\<close> is
  \<^verbatim>\<open>xml.etree.ElementTree.ParseError\<close>, \<open>OtherException\<close> is any other subclass of
  \<^verbatim>\<open>Exception\<close> (an \<^verbatim>\<open>OSError\<close>, a \<^verbatim>\<open>UnicodeDecodeError\<close>, a \<^verbatim>\<open>ValueError\<close>); both carry
  their message.
\<close>

datatype exn = ParseError ustring | OtherException ustring

type_synonym path = ustring

datatype element = Element (tag: ustring) (attrib: "(ustring \<times> ustring) list") (children: "element list")

text \<open>
  The lines the program prints (lines 96, 101, 103 and 170): each holds the path and the
  exception of the message.
\<close>

datatype log_line =
    Error_parsing path exn
  | Fallback_also_failed path exn
  | Error_processing path exn
  | Fallback_failed path exn

text \<open>
  Four of the library calls may raise. \<^verbatim>\<open>open\<close> and \<^verbatim>\<open>file.read\<close> raise on a missing file
  or on bytes that are not UTF-8; \<^verbatim>\<open>ET.fromstring\<close> raises \<^verbatim>\<open>ParseError\<close> on a text that
  is not well-formed; the substitution of character references inside \<^verbatim>\<open>html.unescape\<close>
  raises \<^verbatim>\<open>ValueError\<close> on a decimal reference with more digits than the interpreter
  converts to an \<^verbatim>\<open>int\<close>; \<^verbatim>\<open>print\<close> raises when the standard output cannot take the line
  (\<^verbatim>\<open>UnicodeEncodeError\<close> for a path the stream cannot encode, \<^verbatim>\<open>BrokenPipeError\<close>), and
  \<open>print_raises\<close> gives that exception, if any, for each line.
\<close>

record runtime =
  read_file :: "path \<Rightarrow> exn + ustring"
  et_fromstring :: "ustring \<Rightarrow> exn + element"
  path_stem :: "path \<Rightarrow> ustring"
  charref_sub :: "ustring \<Rightarrow> exn + ustring"
  print_raises :: "log_line \<Rightarrow> exn option"
  re_digit :: "codepoint \<Rightarrow> bool"
  re_space :: "codepoint \<Rightarrow> bool"
  re_lower :: "codepoint \<Rightarrow> codepoint"

text \<open>
  \<^verbatim>\<open>html.unescape(s)\<close> returns \<open>s\<close> itself when it holds no \<^verbatim>\<open>&\<close>, and the result of
  the library's substitution of character references otherwise.
\<close>

definition html_unescape :: "runtime \<Rightarrow> ustring \<Rightarrow> exn + ustring" where
  "html_unescape rt s = (if 0x26 \<notin> set s then Inr s else charref_sub rt s)"

text \<open>
  \<^verbatim>\<open>print(line)\<close>, \<open>out\<close> being the lines printed so far: the lines printed after the call,
  or the exception the call raises.
\<close>

definition print_line :: "runtime \<Rightarrow> log_line \<Rightarrow> log_line list \<Rightarrow> exn + log_line list" where
  "print_line rt line out =
     (case print_raises rt line of None \<Rightarrow> Inr (out @ [line]) | Some e \<Rightarrow> Inl e)"

text \<open>
  A \<^verbatim>\<open>for\<close> loop whose body may raise: \<open>step\<close> is the body, on the state before it and the
  item. The result is the state when the loop is left and the exception that ended it,
  if one did; what the body did before it raised stays done.
\<close>

fun for_each :: "('s \<Rightarrow> 'a \<Rightarrow> exn + 's) \<Rightarrow> 's \<Rightarrow> 'a list \<Rightarrow> 's \<times> exn option" where
  "for_each step s [] = (s, None)"
| "for_each step s (x # xs) =
     (case step s x of
        Inl e \<Rightarrow> (s, Some e)
      | Inr s' \<Rightarrow> for_each step s' xs)"

text \<open>\<^verbatim>\<open>outline.get(key)\<close> (\<open>None\<close> without the attribute) and \<^verbatim>\<open>outline.get(key, dflt)\<close>.\<close>

definition get :: "element \<Rightarrow> ustring \<Rightarrow> ustring option" where
  "get e key = map_of (attrib e) key"

definition get_default :: "element \<Rightarrow> ustring \<Rightarrow> ustring \<Rightarrow> ustring" where
  "get_default e key dflt = (case get e key of None \<Rightarrow> dflt | Some v \<Rightarrow> v)"

text \<open>Python's truth value of \<open>None\<close> or a \<^verbatim>\<open>str\<close>: false for \<open>None\<close> and for the empty string.\<close>

fun truthy :: "ustring option \<Rightarrow> bool" where
  "truthy None = False"
| "truthy (Some s) = (s \<noteq> [])"

text \<open>\<^verbatim>\<open>Element.iter()\<close>: the element, then its descendants, in document order.\<close>

fun iter :: "element \<Rightarrow> element list" where
  "iter (Element t a cs) = Element t a cs # concat (map iter cs)"

text \<open>
  \<^verbatim>\<open>root.findall('.//outline')\<close>: the elements of \<^verbatim>\<open>root.iter('outline')\<close> other than
  the root itself.
\<close>

definition findall_outline :: "element \<Rightarrow> element list" where
  "findall_outline root =
     filter (\<lambda>e. tag e = ustr ''outline'') (concat (map iter (children root)))"

section \<open>Feed records and the primary path\<close>

record feed =
  title :: ustring
  description :: ustring
  url :: ustring
  feed_type :: ustring
  category :: ustring

text \<open>
  Lines 79 to 93: the record appended for an outline whose \<^verbatim>\<open>xmlUrl\<close> is \<open>xml_url\<close>, or
  the exception of \<^verbatim>\<open>html.unescape\<close> on the title (line 84) or, after it, on the
  description (line 85). \<^verbatim>\<open>outline.get('text') or outline.get('title', '')\<close> is the first
  operand when it is true, the second otherwise.
\<close>

definition outline_record :: "runtime \<Rightarrow> ustring \<Rightarrow> element \<Rightarrow> ustring \<Rightarrow> exn + feed" where
  "outline_record rt cat outline xml_url =
     (let title0 = (case get outline (ustr ''text'') of
                      None \<Rightarrow> get_default outline (ustr ''title'') []
                    | Some t \<Rightarrow> if t \<noteq> [] then t else get_default outline (ustr ''title'') []);
          description0 = get_default outline (ustr ''description'') [];
          ftype = get_default outline (ustr ''type'') (ustr ''rss'')
      in case (if title0 \<noteq> [] then html_unescape rt title0 else Inr []) of
           Inl e \<Rightarrow> Inl e
         | Inr title1 \<Rightarrow>
             (case (if description0 \<noteq> [] then html_unescape rt description0 else Inr []) of
                Inl e \<Rightarrow> Inl e
              | Inr description1 \<Rightarrow>
                  Inr \<lparr>title = title1, description = description1, url = xml_url,
                       feed_type = ftype, category = cat\<rparr>))"

text \<open>
  The body of the loop of lines 74 to 93: \<open>feeds\<close> is the list the loop appends to. When
  the body raises nothing is appended for the outline.
\<close>

definition outline_step :: "runtime \<Rightarrow> ustring \<Rightarrow> feed list \<Rightarrow> element \<Rightarrow> exn + feed list" where
  "outline_step rt cat feeds outline =
     (case get outline (ustr ''xmlUrl'') of
        None \<Rightarrow> Inr feeds
      | Some xml_url \<Rightarrow>
          if xml_url \<noteq> []
          then (case outline_record rt cat outline xml_url of
                  Inl e \<Rightarrow> Inl e
                | Inr f \<Rightarrow> Inr (feeds @ [f]))
          else Inr feeds)"

text \<open>
  The loop of lines 74 to 93 on a parsed tree, \<open>feeds\<close> being empty before it: the list
  when the loop is left, and the exception that ended it, if one did.
\<close>

definition primary_walk :: "runtime \<Rightarrow> ustring \<Rightarrow> element \<Rightarrow> feed list \<times> exn option" where
  "primary_walk rt cat root = for_each (outline_step rt cat) [] (findall_outline root)"

text \<open>
  The \<^verbatim>\<open>try\<close> block of lines 59 to 93: the value of \<open>feeds\<close> when the block is left, and
  the exception that ended it, if one did. Reading and parsing raise before anything is
  appended; the loop may raise after it appended records.
\<close>

definition primary_path :: "runtime \<Rightarrow> path \<Rightarrow> feed list \<times> exn option" where
  "primary_path rt file_path =
     (case read_file rt file_path of
        Inl e \<Rightarrow> ([], Some e)
      | Inr xml_content \<Rightarrow>
          (case et_fromstring rt (fix_xml_encoding (re_digit rt) xml_content) of
             Inl e \<Rightarrow> ([], Some e)
           | Inr root \<Rightarrow> primary_walk rt (path_stem rt file_path) root))"

section \<open>Regular expressions of the fallback path\<close>

text \<open>
  The patterns of the fallback are sequences of four kinds of items: one character of a
  class (a literal is a class), \<^verbatim>\<open>X+\<close>, \<^verbatim>\<open>X*?\<close> and the capturing group \<^verbatim>\<open>(X*)\<close>, where
  \<open>X\<close> is a class. \<open>matches\<close> is the backtracking matcher of \<^verbatim>\<open>re\<close> on such a sequence,
  tried at the start of the text: a greedy item takes the longest run first and gives
  characters back, a lazy one takes the shortest first. It returns the text of group 1
  and the text behind the match.
\<close>

datatype atom =
    Class "codepoint \<Rightarrow> bool"
  | Greedy_plus "codepoint \<Rightarrow> bool"
  | Lazy_star "codepoint \<Rightarrow> bool"
  | Group_greedy_star "codepoint \<Rightarrow> bool"

fun matches :: "atom list \<Rightarrow> ustring \<Rightarrow> (ustring \<times> ustring) option" where
  "matches [] s = Some ([], s)"
| "matches (Class cls # r) [] = None"
| "matches (Class cls # r) (c # cs) = (if cls c then matches r cs else None)"
| "matches (Greedy_plus cls # r) [] = None"
| "matches (Greedy_plus cls # r) (c # cs) =
     (if cls c
      then (case matches (Greedy_plus cls # r) cs of
              Some m \<Rightarrow> Some m
            | None \<Rightarrow> matches r cs)
      else None)"
| "matches (Lazy_star cls # r) [] = matches r []"
| "matches (Lazy_star cls # r) (c # cs) =
     (case matches r (c # cs) of
        Some m \<Rightarrow> Some m
      | None \<Rightarrow> if cls c then matches (Lazy_star cls # r) cs else None)"
| "matches (Group_greedy_star cls # r) [] = matches r []"
| "matches (Group_greedy_star cls # r) (c # cs) =
     (if cls c
      then (case matches (Group_greedy_star cls # r) cs of
              Some (g, rest) \<Rightarrow> Some (c # g, rest)
            | None \<Rightarrow> matches r (c # cs))
      else matches r (c # cs))"

text \<open>
  \<^verbatim>\<open>re.search\<close>: the match at the leftmost position that has one. The result is the
  offset of the match, group 1 and the text behind the match.
\<close>

fun search :: "atom list \<Rightarrow> ustring \<Rightarrow> (nat \<times> ustring \<times> ustring) option" where
  "search pat [] = (case matches pat [] of Some (g, rest) \<Rightarrow> Some (0, g, rest) | None \<Rightarrow> None)"
| "search pat (c # cs) =
     (case matches pat (c # cs) of
        Some (g, rest) \<Rightarrow> Some (0, g, rest)
      | None \<Rightarrow> (case search pat cs of
                   Some (i, g, rest) \<Rightarrow> Some (Suc i, g, rest)
                 | None \<Rightarrow> None))"

text \<open>
  A match object: \<^verbatim>\<open>m.start()\<close>, \<^verbatim>\<open>m.end()\<close>, \<^verbatim>\<open>m.group(0)\<close> and \<^verbatim>\<open>m.group(1)\<close>.
\<close>

record rmatch =
  m_start :: nat
  m_end :: nat
  group0 :: ustring
  group1 :: ustring

text \<open>
  \<^verbatim>\<open>re.finditer\<close>: the matches from left to right, each search starting where the match
  before it ended; \<open>pos\<close> is the offset of \<open>s\<close> in the whole text. No pattern of this
  program matches the empty string, so the library's rule for going on behind an empty
  match is left out: the scan stops at one.
\<close>

function finditer :: "atom list \<Rightarrow> nat \<Rightarrow> ustring \<Rightarrow> rmatch list" where
  "finditer pat pos s =
     (case search pat s of
        None \<Rightarrow> []
      | Some (i, g, rest) \<Rightarrow>
          \<lparr>m_start = pos + i, m_end = pos + (length s - length rest),
           group0 = take (length s - length rest - i) (drop i s), group1 = g\<rparr>
          # (if length rest < length s
             then finditer pat (pos + (length s - length rest)) rest
             else []))"
  by pat_completeness auto
termination
  by (relation "measure (\<lambda>(pat, pos, s). length s)") auto

text \<open>
  A literal character, and a cased literal under \<^verbatim>\<open>re.IGNORECASE\<close> on a \<^verbatim>\<open>str\<close> pattern:
  the character read is lower-cased and compared with the lower-cased literal; the
  library's table of further equivalences has, for the letters of this pattern, the one
  entry that \<^verbatim>\<open>i\<close> also matches U+0131.
\<close>

definition literal :: "codepoint \<Rightarrow> atom" where
  "literal p = Class (\<lambda>c. c = p)"

definition ignorecase_class :: "runtime \<Rightarrow> codepoint \<Rightarrow> codepoint \<Rightarrow> bool" where
  "ignorecase_class rt p c =
     (re_lower rt c = re_lower rt p \<or> (re_lower rt p = 0x69 \<and> re_lower rt c = 0x131))"

definition literal_ignorecase :: "runtime \<Rightarrow> codepoint \<Rightarrow> atom" where
  "literal_ignorecase rt p = Class (ignorecase_class rt p)"

text \<open>
  Line 126 with the flags of line 127 (\<^verbatim>\<open>re.DOTALL\<close> changes nothing: the pattern has no
  dot). The characters \<^verbatim>\<open><\<close>, \<^verbatim>\<open>=\<close> and \<^verbatim>\<open>"\<close> have no case.
\<close>

definition outline_pattern :: "runtime \<Rightarrow> atom list" where
  "outline_pattern rt =
     literal 0x3C # map (literal_ignorecase rt) (ustr ''outline'')
     @ [Greedy_plus (re_space rt), Lazy_star (\<lambda>c. c \<noteq> 0x3E)]
     @ map (literal_ignorecase rt) (ustr ''xmlUrl'')
     @ [literal 0x3D, literal 0x22, Group_greedy_star (\<lambda>c. c \<noteq> 0x22), literal 0x22,
        Lazy_star (\<lambda>c. c \<noteq> 0x3E), literal 0x3E]"

text \<open>The patterns of lines 140, 146, 151 and 156: \<^verbatim>\<open>NAME="([^"]*)"\<close>, with no flag.\<close>

definition attribute_pattern :: "ustring \<Rightarrow> atom list" where
  "attribute_pattern name =
     map literal name @ [literal 0x3D, literal 0x22, Group_greedy_star (\<lambda>c. c \<noteq> 0x22), literal 0x22]"

text \<open>\<^verbatim>\<open>re.search(pattern, outline_text)\<close> and, when there is a match, its \<^verbatim>\<open>group(1)\<close>.\<close>

definition attribute_search :: "ustring \<Rightarrow> ustring \<Rightarrow> ustring option" where
  "attribute_search name outline_text =
     (case search (attribute_pattern name) outline_text of
        None \<Rightarrow> None
      | Some (i, g, rest) \<Rightarrow> Some g)"


section \<open>The fallback path\<close>

text \<open>
  Lines 131 to 158 and the record of lines 161 to 167, for one match, or the exception
  of \<^verbatim>\<open>html.unescape\<close> on the title (line 162) or, after it, on the description (line
  163). \<^verbatim>\<open>title\<close> is looked for only when \<^verbatim>\<open>text\<close> gave nothing or the empty string.
\<close>

definition match_record :: "runtime \<Rightarrow> ustring \<Rightarrow> rmatch \<Rightarrow> exn + feed" where
  "match_record rt cat m =
     (let outline_text = group0 m;
          xml_url = group1 m;
          title0 = (case attribute_search (ustr ''text'') outline_text of
                      Some v \<Rightarrow> v | None \<Rightarrow> []);
          title1 = (if title0 = []
                    then (case attribute_search (ustr ''title'') outline_text of
                            Some v \<Rightarrow> v | None \<Rightarrow> title0)
                    else title0);
          description0 = (case attribute_search (ustr ''description'') outline_text of
                            Some v \<Rightarrow> v | None \<Rightarrow> []);
          ftype = (case attribute_search (ustr ''type'') outline_text of
                     Some v \<Rightarrow> v | None \<Rightarrow> ustr ''rss'')
      in case (if title1 \<noteq> [] then html_unescape rt title1 else Inr []) of
           Inl e \<Rightarrow> Inl e
         | Inr title2 \<Rightarrow>
             (case (if description0 \<noteq> [] then html_unescape rt description0 else Inr []) of
                Inl e \<Rightarrow> Inl e
              | Inr description1 \<Rightarrow>
                  Inr \<lparr>title = title2, description = description1, url = xml_url,
                       feed_type = ftype, category = cat\<rparr>))"

text \<open>
  The body of the loop of lines 129 to 167. \<^verbatim>\<open>html.unescape\<close> is called only under
  \<^verbatim>\<open>if xml_url:\<close>, so a match with an empty URL cannot raise.
\<close>

definition match_step :: "runtime \<Rightarrow> ustring \<Rightarrow> feed list \<Rightarrow> rmatch \<Rightarrow> exn + feed list" where
  "match_step rt cat feeds m =
     (if group1 m \<noteq> []
      then (case match_record rt cat m of
              Inl e \<Rightarrow> Inl e
            | Inr f \<Rightarrow> Inr (feeds @ [f]))
      else Inr feeds)"

text \<open>
  Lines 127 to 167 on the text read: the scan and the loop over its matches, with the
  list when the loop is left and the exception that ended it, if one did.
\<close>

definition fallback_scan :: "runtime \<Rightarrow> ustring \<Rightarrow> ustring \<Rightarrow> feed list \<times> exn option" where
  "fallback_scan rt cat content =
     for_each (match_step rt cat) [] (finditer (outline_pattern rt) 0 content)"

text \<open>
  \<^verbatim>\<open>parse_opml_file_fallback\<close>, \<open>out\<close> being the lines printed before the call. The file
  is opened and read again (lines 121, 122) and the text read is scanned as it is. The
  handler of line 169 catches every exception of the \<^verbatim>\<open>try\<close> block and prints it; the
  list built so far is returned (line 172). The \<^verbatim>\<open>print\<close> of line 170 stands in the
  handler, outside the \<^verbatim>\<open>try\<close> block: an exception it raises leaves the function. The
  result is the exception that leaves the function, or the list returned and the lines
  printed.
\<close>

definition parse_opml_file_fallback ::
  "runtime \<Rightarrow> path \<Rightarrow> log_line list \<Rightarrow> exn + (feed list \<times> log_line list)" where
  "parse_opml_file_fallback rt file_path out =
     (let cat = path_stem rt file_path
      in case (case read_file rt file_path of
                 Inl e \<Rightarrow> ([], Some e)
               | Inr content \<Rightarrow> fallback_scan rt cat content) of
           (feeds, None) \<Rightarrow> Inr (feeds, out)
         | (feeds, Some e) \<Rightarrow>
             (case print_line rt (Fallback_failed file_path e) out of
                Inl print_e \<Rightarrow> Inl print_e
              | Inr out' \<Rightarrow> Inr (feeds, out')))"

section \<open>Document-level extraction\<close>

text \<open>
  \<^verbatim>\<open>parse_opml_file\<close>: the \<^verbatim>\<open>try\<close> block, the handler of \<^verbatim>\<open>ET.ParseError\<close> (lines 95 to
  101), which prints and then calls the fallback inside a \<^verbatim>\<open>try\<close> of its own, and the
  handler of every other \<^verbatim>\<open>Exception\<close> (lines 102, 103), which only prints. Both
  handlers go on with the list the \<^verbatim>\<open>try\<close> block had built, and line 105 returns it. The
  three calls of \<^verbatim>\<open>print\<close> (lines 96, 101, 103) stand in handlers and outside every
  \<^verbatim>\<open>try\<close> block, so an exception one of them raises leaves the function; an exception
  that leaves the fallback (that of its own \<^verbatim>\<open>print\<close>) is caught at line 100.
\<close>

definition parse_opml_file :: "runtime \<Rightarrow> path \<Rightarrow> exn + (feed list \<times> log_line list)" where
  "parse_opml_file rt file_path =
     (case primary_path rt file_path of
        (feeds, None) \<Rightarrow> Inr (feeds, [])
      | (feeds, Some (ParseError msg)) \<Rightarrow>
          (case print_line rt (Error_parsing file_path (ParseError msg)) [] of
             Inl print_e \<Rightarrow> Inl print_e
           | Inr out \<Rightarrow>
               (case parse_opml_file_fallback rt file_path out of
                  Inr (found, out') \<Rightarrow> Inr (feeds @ found, out')
                | Inl fallback_e \<Rightarrow>
                    (case print_line rt (Fallback_also_failed file_path fallback_e) out of
                       Inl print_e \<Rightarrow> Inl print_e
                     | Inr out' \<Rightarrow> Inr (feeds, out'))))
      | (feeds, Some (OtherException msg)) \<Rightarrow>
          (case print_line rt (Error_processing file_path (OtherException msg)) [] of
             Inl print_e \<Rightarrow> Inl print_e
           | Inr out \<Rightarrow> Inr (feeds, out)))"

section \<open>Normalized texts and written documents\<close>

text \<open>
  The code points the normalizer replaces (lines 31 to 43), and the texts in which every
  \<^verbatim>\<open>&\<close> already starts one of the entity references of line 27.
\<close>

definition smart_typography :: "codepoint list" where
  "smart_typography = [0x2019, 0x201C, 0x201D, 0x2013, 0x2014, 0xA0, 0x2026, 0x2018]"

fun escaped :: "(codepoint \<Rightarrow> bool) \<Rightarrow> ustring \<Rightarrow> bool" where
  "escaped isdigit [] = True"
| "escaped isdigit (c # cs) = ((c \<noteq> 0x26 \<or> entity_follows isdigit cs) \<and> escaped isdigit cs)"

text \<open>
  A document as it is written: a sequence of items. \<open>Node\<close> is an element written in the
  regular way: its name; its attributes, each with the white space written before it,
  its name and its value between double quotes; the white space before the end of the
  start tag; whether an element without content is written as an empty-element tag
  (\<^verbatim>\<open><name ... />\<close>); its content; and the white space before the end of the end tag.
  \<open>Chars\<close> is any other text: character data, comments, processing instructions,
  declarations, and elements written in another way (with single quotes, say).
\<close>

datatype written =
    Chars ustring
  | Node ustring "(ustring \<times> ustring \<times> ustring) list" ustring bool "written list" ustring

definition attribute_text :: "ustring \<times> ustring \<times> ustring \<Rightarrow> ustring" where
  "attribute_text a = fst a @ fst (snd a) @ [0x3D, 0x22] @ snd (snd a) @ [0x22]"

definition closer :: "bool \<Rightarrow> ustring" where
  "closer slash = (if slash then [0x2F, 0x3E] else [0x3E])"

definition start_tag ::
  "ustring \<Rightarrow> (ustring \<times> ustring \<times> ustring) list \<Rightarrow> ustring \<Rightarrow> bool \<Rightarrow> ustring" where
  "start_tag n as ws slash = 0x3C # n @ concat (map attribute_text as) @ ws @ closer slash"

definition end_tag :: "ustring \<Rightarrow> ustring \<Rightarrow> ustring" where
  "end_tag n ws = [0x3C, 0x2F] @ n @ ws @ [0x3E]"

fun text_of :: "written \<Rightarrow> ustring" where
  "text_of (Chars s) = s"
| "text_of (Node n as ws slash cs ws') =
     (if slash \<and> cs = []
      then start_tag n as ws True
      else start_tag n as ws False @ concat (map text_of cs) @ end_tag n ws')"

text \<open>
  The element trees of the nodes of a written item, as \<^verbatim>\<open>ET.fromstring\<close> builds them
  where nothing is escaped: an element keeps its name, its attributes in their order and
  its child elements. The items of a document are \<open>items\<close>, its text is
  \<open>concat (map text_of items)\<close> and its written elements are those of
  \<open>concat (map iter (concat (map forest items)))\<close>.
\<close>

fun forest :: "written \<Rightarrow> element list" where
  "forest (Chars s) = []"
| "forest (Node n as ws slash cs ws') = [Element n (map snd as) (concat (map forest cs))]"

text \<open>
  A sequence of character classes tried at the start of a text, as a run of literals of
  a pattern is; and the names that end, under \<^verbatim>\<open>re.IGNORECASE\<close>, with \<^verbatim>\<open>xmlUrl\<close>.
\<close>

fun accepts :: "(codepoint \<Rightarrow> bool) list \<Rightarrow> ustring \<Rightarrow> bool" where
  "accepts [] s = True"
| "accepts (p # ps) [] = False"
| "accepts (p # ps) (c # cs) = (p c \<and> accepts ps cs)"

definition xmlurl_like :: "runtime \<Rightarrow> ustring \<Rightarrow> bool" where
  "xmlurl_like rt k =
     (6 \<le> length k \<and>
      accepts (map (ignorecase_class rt) (ustr ''xmlUrl'')) (drop (length k - 6) k))"

definition outline_letters :: "runtime \<Rightarrow> (codepoint \<Rightarrow> bool) list" where
  "outline_letters rt = map (ignorecase_class rt) (ustr ''outline'')"

text \<open>The names the pattern of line 126 takes for \<^verbatim>\<open>outline\<close>: \<^verbatim>\<open>OUTLINE\<close>, \<^verbatim>\<open>Outline\<close>, ...\<close>

definition outline_like :: "runtime \<Rightarrow> ustring \<Rightarrow> bool" where
  "outline_like rt n = (length n = 7 \<and> accepts (outline_letters rt) n)"

text \<open>
  The white space XML allows inside a tag: spaces, tabs, line feeds, carriage returns.
\<close>

definition layout :: "ustring \<Rightarrow> bool" where
  "layout w = list_all (\<lambda>c. c = 0x20 \<or> c = 0x09 \<or> c = 0x0A \<or> c = 0x0D) w"

text \<open>
  \<open>rejects ps s\<close>: some character of \<open>s\<close> is not of the class at its place in \<open>ps\<close>. A text
  is inert when the start of the pattern of line 126, \<^verbatim>\<open><outline\<close> and a white space
  character, is rejected behind each \<^verbatim>\<open><\<close> of the text, inside the text: no match of
  the pattern starts in it, whatever follows it. End tags, comments, declarations and
  the tags of elements with other names are inert.
\<close>

fun rejects :: "(codepoint \<Rightarrow> bool) list \<Rightarrow> ustring \<Rightarrow> bool" where
  "rejects [] s = False"
| "rejects (p # ps) [] = False"
| "rejects (p # ps) (c # cs) = (\<not> p c \<or> rejects ps cs)"

fun inert :: "runtime \<Rightarrow> ustring \<Rightarrow> bool" where
  "inert rt [] = True"
| "inert rt (c # cs) =
     ((c \<noteq> 0x3C \<or> rejects (outline_letters rt @ [re_space rt]) cs) \<and> inert rt cs)"

text \<open>
  Plain names (of elements and attributes) are not empty and hold no \<^verbatim>\<open><\<close>, \<^verbatim>\<open>>\<close>,
  \<^verbatim>\<open>=\<close>, \<^verbatim>\<open>"\<close> and no white space; plain values hold no \<^verbatim>\<open><\<close>, \<^verbatim>\<open>>\<close>, \<^verbatim>\<open>"\<close> and do
  not end with \<^verbatim>\<open>=\<close>. A plain attribute has a plain name and a plain value, and its
  name does not end like \<^verbatim>\<open>xmlUrl\<close> unless it is \<^verbatim>\<open>xmlUrl\<close>.
\<close>

definition plain_name :: "runtime \<Rightarrow> ustring \<Rightarrow> bool" where
  "plain_name rt n =
     (n \<noteq> [] \<and>
      list_all (\<lambda>c. c \<noteq> 0x3C \<and> c \<noteq> 0x3E \<and> c \<noteq> 0x3D \<and> c \<noteq> 0x22 \<and> \<not> re_space rt c) n)"

definition plain_value :: "ustring \<Rightarrow> bool" where
  "plain_value v =
     (list_all (\<lambda>c. c \<noteq> 0x3C \<and> c \<noteq> 0x3E \<and> c \<noteq> 0x22) v \<and> (v = [] \<or> last v \<noteq> 0x3D))"

definition plain_attribute :: "runtime \<Rightarrow> ustring \<times> ustring \<Rightarrow> bool" where
  "plain_attribute rt kv =
     (plain_name rt (fst kv) \<and> plain_value (snd kv) \<and>
      (fst kv = ustr ''xmlUrl'' \<or> \<not> xmlurl_like rt (fst kv)))"

text \<open>
  The written items of claim C7. Every node has a plain name, white space before each
  attribute, and no \<^verbatim>\<open><\<close> inside its tags; the other text is inert. The nodes whose
  name the pattern takes for \<^verbatim>\<open>outline\<close> have plain attributes; the attributes of the
  other nodes are free.
\<close>

definition spaced :: "ustring \<times> ustring \<times> ustring \<Rightarrow> bool" where
  "spaced a =
     (fst a \<noteq> [] \<and> layout (fst a) \<and> 0x3C \<notin> set (fst (snd a)) \<and> 0x3C \<notin> set (snd (snd a)))"

fun plain_written :: "runtime \<Rightarrow> written \<Rightarrow> bool" where
  "plain_written rt (Chars s) = inert rt s"
| "plain_written rt (Node n as ws slash cs ws') =
     (plain_name rt n \<and> list_all spaced as \<and> layout ws \<and> layout ws' \<and>
      (\<not> outline_like rt n \<or> list_all (plain_attribute rt) (map snd as)) \<and>
      (\<forall>c \<in> set cs. plain_written rt c))"

text \<open>
  The pieces of the pattern of line 126, named for the proofs about written documents:
  the classes of \<^verbatim>\<open><outline\<close> and of \<^verbatim>\<open>xmlUrl="\<close>, the part of the pattern from the lazy
  \<^verbatim>\<open>[^>]*?\<close> on, and its tail from the group on. \<open>delimiter\<close> holds the characters
  below the letters, among them those between names and values; \<open>captured\<close> is the URLs
  of the matches of a text in their order, and \<open>tag_urls\<close> what the start tag of an
  element yields.
\<close>

definition url_tail :: "atom list" where
  "url_tail = [Group_greedy_star (\<lambda>c. c \<noteq> 0x22), literal 0x22,
               Lazy_star (\<lambda>c. c \<noteq> 0x3E), literal 0x3E]"

definition xmlurl_letters :: "runtime \<Rightarrow> (codepoint \<Rightarrow> bool) list" where
  "xmlurl_letters rt = map (ignorecase_class rt) (ustr ''xmlUrl'')"

definition xmlurl_classes :: "runtime \<Rightarrow> (codepoint \<Rightarrow> bool) list" where
  "xmlurl_classes rt = xmlurl_letters rt @ [\<lambda>c. c = 0x3D, \<lambda>c. c = 0x22]"

definition scan_pattern :: "runtime \<Rightarrow> atom list" where
  "scan_pattern rt = Lazy_star (\<lambda>c. c \<noteq> 0x3E) # map Class (xmlurl_classes rt) @ url_tail"

definition opening_classes :: "runtime \<Rightarrow> (codepoint \<Rightarrow> bool) list" where
  "opening_classes rt = (\<lambda>c. c = 0x3C) # map (ignorecase_class rt) (ustr ''outline'')"

definition delimiter :: "codepoint \<Rightarrow> bool" where
  "delimiter c = (c < 0x41)"

text \<open>The text of an attribute behind its white space.\<close>

definition attribute_body :: "ustring \<times> ustring \<Rightarrow> ustring" where
  "attribute_body kv = fst kv @ [0x3D, 0x22] @ snd kv @ [0x22]"

definition captured :: "runtime \<Rightarrow> ustring \<Rightarrow> ustring list" where
  "captured rt s = map group1 (finditer (outline_pattern rt) 0 s)"

definition tag_urls :: "runtime \<Rightarrow> element \<Rightarrow> ustring list" where
  "tag_urls rt e =
     (if outline_like rt (tag e)
      then (case map_of (attrib e) (ustr ''xmlUrl'') of Some u \<Rightarrow> [u] | None \<Rightarrow> [])
      else [])"

text \<open>
  The written elements named \<^verbatim>\<open>outline\<close> of a document, in the order of their start
  tags.
\<close>

definition written_outlines :: "written list \<Rightarrow> element list" where
  "written_outlines items =
     filter (\<lambda>y. tag y = ustr ''outline'') (concat (map iter (concat (map forest items))))"

text \<open>The pair of a record that claim C7 compares.\<close>

definition url_category :: "feed \<Rightarrow> ustring \<times> ustring" where
  "url_category f = (url f, category f)"

section \<open>Example inputs\<close>

text \<open>
  A runtime for ASCII documents: the tables of \<^verbatim>\<open>re\<close> restricted to ASCII, on which they
  agree with the Unicode tables; \<^verbatim>\<open>Path('news.opml').stem\<close> is \<^verbatim>\<open>news\<close>; \<^verbatim>\<open>print\<close> does
  not fail. The file system, the parser and the substitution of character references
  are given per example, each as the library behaves on the texts of that example.
\<close>

definition ascii_digit :: "codepoint \<Rightarrow> bool" where
  "ascii_digit c = (0x30 \<le> c \<and> c \<le> 0x39)"

definition ascii_space :: "codepoint \<Rightarrow> bool" where
  "ascii_space c = (c = 0x20 \<or> (0x09 \<le> c \<and> c \<le> 0x0D) \<or> (0x1C \<le> c \<and> c \<le> 0x1F))"

definition ascii_lower :: "codepoint \<Rightarrow> codepoint" where
  "ascii_lower c = (if 0x41 \<le> c \<and> c \<le> 0x5A then c + 32 else c)"

definition example_runtime ::
  "(path \<Rightarrow> exn + ustring) \<Rightarrow> (ustring \<Rightarrow> exn + element) \<Rightarrow> (ustring \<Rightarrow> exn + ustring)
   \<Rightarrow> runtime" where
  "example_runtime fs parser unesc =
     \<lparr>read_file = fs, et_fromstring = parser, path_stem = (\<lambda>p. ustr ''news''),
      charref_sub = unesc, print_raises = (\<lambda>line. None), re_digit = ascii_digit,
      re_space = ascii_space, re_lower = ascii_lower\<rparr>"

definition example_path :: path where
  "example_path = ustr ''news.opml''"

text \<open>The double quote, which an Isabelle string literal cannot hold next to its own quotes.\<close>

definition dq :: ustring where
  "dq = [0x22]"

text \<open>
  Scenario 1 of the specification,
  \<^verbatim>\<open><opml><body><outline text="Tech" xmlUrl="http://a.com/rss"/></body></opml>\<close>,
  and the tree \<^verbatim>\<open>ET.fromstring\<close> returns for it.
\<close>

definition scenario1_doc :: ustring where
  "scenario1_doc =
     ustr ''<opml><body><outline text='' @ dq @ ustr ''Tech'' @ dq @ ustr '' xmlUrl='' @ dq
     @ ustr ''http://a.com/rss'' @ dq @ ustr ''/></body></opml>''"

definition scenario1_tree :: element where
  "scenario1_tree =
     Element (ustr ''opml'') []
       [Element (ustr ''body'') []
          [Element (ustr ''outline'')
             [(ustr ''text'', ustr ''Tech''), (ustr ''xmlUrl'', ustr ''http://a.com/rss'')] []]]"

definition scenario1_runtime :: runtime where
  "scenario1_runtime =
     example_runtime (\<lambda>p. Inr scenario1_doc) (\<lambda>s. Inr scenario1_tree) (\<lambda>s. Inr s)"

text \<open>Scenario 1 as it is written: three elements, the innermost an empty-element tag.\<close>

definition scenario1_written :: written where
  "scenario1_written =
     Node (ustr ''opml'') [] [] False
       [Node (ustr ''body'') [] [] False
          [Node (ustr ''outline'')
             [(ustr '' '', ustr ''text'', ustr ''Tech''),
              (ustr '' '', ustr ''xmlUrl'', ustr ''http://a.com/rss'')] [] True [] []] []] []"

text \<open>
  A file whose tags are never closed,
  \<^verbatim>\<open><opml><body><outline text="Q&A" xmlUrl="http://a.com/rss?x=1&y=2">\<close>:
  on its normalized text \<^verbatim>\<open>ET.fromstring\<close> raises \<^verbatim>\<open>ParseError\<close> (no element found).
\<close>

definition unclosed_doc :: ustring where
  "unclosed_doc =
     ustr ''<opml><body><outline text='' @ dq @ ustr ''Q&A'' @ dq @ ustr '' xmlUrl='' @ dq
     @ ustr ''http://a.com/rss?x=1&y=2'' @ dq @ ustr ''>''"

definition unclosed_runtime :: runtime where
  "unclosed_runtime =
     example_runtime (\<lambda>p. Inr unclosed_doc)
       (\<lambda>s. Inl (ParseError (ustr ''no element found''))) (\<lambda>s. Inr s)"

text \<open>
  The same file under a name with a letter outside ASCII (\<^verbatim>\<open>caf\<close>, U+00E9,
  \<^verbatim>\<open>.opml\<close>), the standard output being an ASCII stream: every message of the program
  holds the path, so every \<^verbatim>\<open>print\<close> raises \<^verbatim>\<open>UnicodeEncodeError\<close>.
\<close>

definition accented_path :: path where
  "accented_path = ustr ''caf'' @ [0xE9] @ ustr ''.opml''"

definition ascii_stdout_runtime :: runtime where
  "ascii_stdout_runtime =
     unclosed_runtime
       \<lparr>print_raises := (\<lambda>line. Some (OtherException (ustr ''UnicodeEncodeError'')))\<rparr>"

text \<open>
  A file that is not UTF-8 (an export in Latin-1, say): \<^verbatim>\<open>file.read()\<close> raises
  \<^verbatim>\<open>UnicodeDecodeError\<close>, every time the file is read.
\<close>

definition undecodable_runtime :: runtime where
  "undecodable_runtime =
     example_runtime (\<lambda>p. Inl (OtherException (ustr ''UnicodeDecodeError'')))
       (\<lambda>s. Inl (ParseError [])) (\<lambda>s. Inr s)"

text \<open>
  A well-formed file of three feeds; the \<^verbatim>\<open>text\<close> of the second is written
  \<^verbatim>\<open>&amp;#1...1;\<close> with 4301 digits, so the parser returns the attribute value
  \<^verbatim>\<open>&#1...1;\<close>, on which \<^verbatim>\<open>html.unescape\<close> raises \<^verbatim>\<open>ValueError\<close> (the interpreter
  converts no more than 4300 digits to an \<^verbatim>\<open>int\<close>).
\<close>

definition huge_reference :: ustring where
  "huge_reference = ustr ''&#'' @ replicate 4301 0x31 @ ustr '';''"

definition interrupted_doc :: ustring where
  "interrupted_doc =
     ustr ''<opml><body><outline text='' @ dq @ ustr ''A'' @ dq @ ustr '' xmlUrl='' @ dq
     @ ustr ''http://a.com/1'' @ dq @ ustr ''/><outline text='' @ dq
     @ ustr ''&amp;#'' @ replicate 4301 0x31 @ ustr '';'' @ dq @ ustr '' xmlUrl='' @ dq
     @ ustr ''http://b.com/2'' @ dq @ ustr ''/><outline text='' @ dq @ ustr ''C'' @ dq
     @ ustr '' xmlUrl='' @ dq @ ustr ''http://c.com/3'' @ dq @ ustr ''/></body></opml>''"

definition interrupted_tree :: element where
  "interrupted_tree =
     Element (ustr ''opml'') []
       [Element (ustr ''body'') []
          [Element (ustr ''outline'')
             [(ustr ''text'', ustr ''A''), (ustr ''xmlUrl'', ustr ''http://a.com/1'')] [],
           Element (ustr ''outline'')
             [(ustr ''text'', huge_reference), (ustr ''xmlUrl'', ustr ''http://b.com/2'')] [],
           Element (ustr ''outline'')
             [(ustr ''text'', ustr ''C''), (ustr ''xmlUrl'', ustr ''http://c.com/3'')] []]]"

definition interrupted_runtime :: runtime where
  "interrupted_runtime =
     example_runtime (\<lambda>p. Inr interrupted_doc) (\<lambda>s. Inr interrupted_tree)
       (\<lambda>s. if s = huge_reference then Inl (OtherException (ustr ''ValueError'')) else Inr s)"

text \<open>
  An outline whose \<^verbatim>\<open>text\<close> attribute was encoded twice in the file
  (\<^verbatim>\<open>text="AT&amp;amp;T"\<close>): the parser returns the attribute value \<^verbatim>\<open>AT&amp;T\<close>, and
  \<^verbatim>\<open>html.unescape('AT&amp;T')\<close> is \<^verbatim>\<open>AT&T\<close>.
\<close>

definition twice_encoded_outline :: element where
  "twice_encoded_outline =
     Element (ustr ''outline'')
       [(ustr ''text'', ustr ''AT&amp;T''), (ustr ''xmlUrl'', ustr ''http://c.com'')] []"

definition twice_encoded_runtime :: runtime where
  "twice_encoded_runtime =
     example_runtime (\<lambda>p. Inl (OtherException [])) (\<lambda>s. Inl (ParseError []))
       (\<lambda>s. if s = ustr ''AT&amp;T'' then Inr (ustr ''AT&T'') else Inr s)"

text \<open>
  Scenario 5 of the specification, as an element and as the text of its tag:
  \<^verbatim>\<open><outline text="" title="Fallback Name" xmlUrl="http://c.com">\<close>.
\<close>

definition scenario5_outline :: element where
  "scenario5_outline =
     Element (ustr ''outline'')
       [(ustr ''text'', []), (ustr ''title'', ustr ''Fallback Name''),
        (ustr ''xmlUrl'', ustr ''http://c.com'')] []"

definition scenario5_tag :: ustring where
  "scenario5_tag =
     ustr ''<outline text='' @ dq @ dq @ ustr '' title='' @ dq @ ustr ''Fallback Name'' @ dq
     @ ustr '' xmlUrl='' @ dq @ ustr ''http://c.com'' @ dq @ ustr ''>''"

text \<open>
  An outline with an empty \<^verbatim>\<open>type\<close> attribute, as an element and as the text of its
  tag: \<^verbatim>\<open><outline type="" xmlUrl="http://d.com">\<close>.
\<close>

definition empty_type_outline :: element where
  "empty_type_outline =
     Element (ustr ''outline'') [(ustr ''type'', []), (ustr ''xmlUrl'', ustr ''http://d.com'')] []"

definition empty_type_tag :: ustring where
  "empty_type_tag =
     ustr ''<outline type='' @ dq @ dq @ ustr '' xmlUrl='' @ dq @ ustr ''http://d.com'' @ dq
     @ ustr ''>''"

text \<open>
  Two files that hold one start tag, never closed, so that \<^verbatim>\<open>ET.fromstring\<close> raises
  \<^verbatim>\<open>ParseError\<close>. The element of each has an empty \<^verbatim>\<open>type\<close> attribute. In the first,
  \<^verbatim>\<open><outline content-type="atom" type="" xmlUrl="http://d.com">\<close>, another attribute has
  a name that ends with \<^verbatim>\<open>type\<close>; in the second,
  \<^verbatim>\<open><outline type = "" xmlUrl="http://d.com">\<close>, white space stands around the \<^verbatim>\<open>=\<close>.
\<close>

definition hyphen_type_outline :: element where
  "hyphen_type_outline =
     Element (ustr ''outline'')
       [(ustr ''content-type'', ustr ''atom''), (ustr ''type'', []),
        (ustr ''xmlUrl'', ustr ''http://d.com'')] []"

definition hyphen_type_doc :: ustring where
  "hyphen_type_doc =
     ustr ''<outline content-type='' @ dq @ ustr ''atom'' @ dq @ ustr '' type='' @ dq @ dq
     @ ustr '' xmlUrl='' @ dq @ ustr ''http://d.com'' @ dq @ ustr ''>''"

definition hyphen_type_runtime :: runtime where
  "hyphen_type_runtime =
     example_runtime (\<lambda>p. Inr hyphen_type_doc)
       (\<lambda>s. Inl (ParseError (ustr ''no element found''))) (\<lambda>s. Inr s)"

definition spaced_type_doc :: ustring where
  "spaced_type_doc =
     ustr ''<outline type = '' @ dq @ dq @ ustr '' xmlUrl='' @ dq @ ustr ''http://d.com'' @ dq
     @ ustr ''>''"

definition spaced_type_runtime :: runtime where
  "spaced_type_runtime =
     example_runtime (\<lambda>p. Inr spaced_type_doc)
       (\<lambda>s. Inl (ParseError (ustr ''no element found''))) (\<lambda>s. Inr s)"

text \<open>
  Two more files of one start tag, never closed. The element of the first,
  \<^verbatim>\<open><outline text="x" htmlxmlUrl="http://h.com">\<close>, has no \<^verbatim>\<open>xmlUrl\<close> attribute; that of
  the second, \<^verbatim>\<open><outline text="xmlUrl=" xmlUrl="">\<close>, has an empty one.
\<close>

definition other_url_outline :: element where
  "other_url_outline =
     Element (ustr ''outline'')
       [(ustr ''text'', ustr ''x''), (ustr ''htmlxmlUrl'', ustr ''http://h.com'')] []"

definition other_url_doc :: ustring where
  "other_url_doc =
     ustr ''<outline text='' @ dq @ ustr ''x'' @ dq @ ustr '' htmlxmlUrl='' @ dq
     @ ustr ''http://h.com'' @ dq @ ustr ''>''"

definition other_url_runtime :: runtime where
  "other_url_runtime =
     example_runtime (\<lambda>p. Inr other_url_doc)
       (\<lambda>s. Inl (ParseError (ustr ''no element found''))) (\<lambda>s. Inr s)"

definition quoted_name_outline :: element where
  "quoted_name_outline =
     Element (ustr ''outline'') [(ustr ''text'', ustr ''xmlUrl=''), (ustr ''xmlUrl'', [])] []"

definition quoted_name_doc :: ustring where
  "quoted_name_doc =
     ustr ''<outline text='' @ dq @ ustr ''xmlUrl='' @ dq @ ustr '' xmlUrl='' @ dq @ dq
     @ ustr ''>''"

definition quoted_name_runtime :: runtime where
  "quoted_name_runtime =
     example_runtime (\<lambda>p. Inr quoted_name_doc)
       (\<lambda>s. Inl (ParseError (ustr ''no element found''))) (\<lambda>s. Inr s)"

text \<open>
  Scenario 1 written with single-quoted attributes, well-formed XML with the same tree:
  \<^verbatim>\<open><opml><body><outline text='Tech' xmlUrl='http://a.com/rss'/></body></opml>\<close>.
\<close>

definition single_quoted_doc :: ustring where
  "single_quoted_doc =
     ustr ''<opml><body><outline text='' @ [0x27] @ ustr ''Tech'' @ [0x27] @ ustr '' xmlUrl=''
     @ [0x27] @ ustr ''http://a.com/rss'' @ [0x27] @ ustr ''/></body></opml>''"

definition single_quoted_runtime :: runtime where
  "single_quoted_runtime =
     example_runtime (\<lambda>p. Inr single_quoted_doc) (\<lambda>s. Inr scenario1_tree) (\<lambda>s. Inr s)"

text \<open>
  An outline that carries an empty \<^verbatim>\<open>xmlUrl\<close> (scenario 4 of the specification), a folder
  outline without one, and the match object of the fallback's pattern on the tag
  \<^verbatim>\<open><outline xmlUrl=""/>\<close>.
\<close>

definition empty_url_outline :: element where
  "empty_url_outline =
     Element (ustr ''outline'') [(ustr ''text'', ustr ''X''), (ustr ''xmlUrl'', [])] []"

definition folder_outline :: element where
  "folder_outline = Element (ustr ''outline'') [(ustr ''text'', ustr ''Folder'')] []"

definition empty_url_match :: rmatch where
  "empty_url_match =
     \<lparr>m_start = 0, m_end = 20,
      group0 = ustr ''<outline xmlUrl='' @ dq @ dq @ ustr ''/>'', group1 = []\<rparr>"

text \<open>
  A document with a folder:
  \<^verbatim>\<open><opml><body><outline text="Folder"><outline text="A" xmlUrl="http://a.com/1"/></outline>\<close>
  \<^verbatim>\<open><outline text="B" xmlUrl="http://b.com/2"/></body></opml>\<close> (one line), and its tree.
\<close>

definition nested_doc :: ustring where
  "nested_doc =
     ustr ''<opml><body><outline text='' @ dq @ ustr ''Folder'' @ dq @ ustr ''><outline text=''
     @ dq @ ustr ''A'' @ dq @ ustr '' xmlUrl='' @ dq @ ustr ''http://a.com/1'' @ dq
     @ ustr ''/></outline><outline text='' @ dq @ ustr ''B'' @ dq @ ustr '' xmlUrl='' @ dq
     @ ustr ''http://b.com/2'' @ dq @ ustr ''/></body></opml>''"

definition nested_tree :: element where
  "nested_tree =
     Element (ustr ''opml'') []
       [Element (ustr ''body'') []
          [Element (ustr ''outline'') [(ustr ''text'', ustr ''Folder'')]
             [Element (ustr ''outline'')
                [(ustr ''text'', ustr ''A''), (ustr ''xmlUrl'', ustr ''http://a.com/1'')] []],
           Element (ustr ''outline'')
             [(ustr ''text'', ustr ''B''), (ustr ''xmlUrl'', ustr ''http://b.com/2'')] []]]"

text \<open>
  The ASCII tables agree with the library's on ASCII: a runtime whose tables do.
\<close>

definition ascii_tables :: "runtime \<Rightarrow> bool" where
  "ascii_tables rt =
     list_all (\<lambda>c. re_lower rt c = ascii_lower c \<and> re_space rt c = ascii_space c) [0..<128]"

text \<open>
  A file as an editor saves it, with an XML declaration, a comment, line feeds and
  indentation, a \<^verbatim>\<open>head\<close> with a single-quoted attribute, a folder, an entity reference in
  a title, an attribute on a line of its own, empty-element tags and one element spelled
  \<^verbatim>\<open>OUTLINE\<close>:

  \<^verbatim>\<open><?xml version="1.0"?>\<close>
  \<^verbatim>\<open><!-- my feeds -->\<close>
  \<^verbatim>\<open><opml version="2.0">\<close>
  \<^verbatim>\<open><head><title>News</title><link rel='self'/></head>\<close>
  \<^verbatim>\<open><body>\<close>
  \<^verbatim>\<open><outline text="Folder">\<close>
  \<^verbatim>\<open>  <outline text="Q&amp;A"\<close>
  \<^verbatim>\<open>           xmlUrl="http://a.com/1" />\<close>
  \<^verbatim>\<open></outline>\<close>
  \<^verbatim>\<open><OUTLINE text="B" xmlUrl="http://b.com/2"></OUTLINE>\<close>
  \<^verbatim>\<open><outline xmlUrl="http://c.com/3" text="C"/>\<close>
  \<^verbatim>\<open></body>\<close>
  \<^verbatim>\<open></opml>\<close>

  \<open>listing_tree\<close> is the tree \<^verbatim>\<open>ET.fromstring\<close> returns for it, in which the title of the
  first feed is \<^verbatim>\<open>Q&A\<close>; \<^verbatim>\<open>html.unescape\<close> leaves \<^verbatim>\<open>Q&A\<close> as it is and turns
  \<^verbatim>\<open>Q&amp;A\<close> into it.
\<close>

definition nl :: ustring where
  "nl = [0x0A]"

definition listing_prolog :: ustring where
  "listing_prolog =
     ustr ''<?xml version='' @ dq @ ustr ''1.0'' @ dq @ ustr ''?>'' @ nl
     @ ustr ''<!-- my feeds -->'' @ nl"

definition listing_root :: written where
  "listing_root =
     Node (ustr ''opml'') [(ustr '' '', ustr ''version'', ustr ''2.0'')] [] False
       [Chars nl,
        Node (ustr ''head'') [] [] False
          [Node (ustr ''title'') [] [] False [Chars (ustr ''News'')] [],
           Chars (ustr ''<link rel='' @ [0x27] @ ustr ''self'' @ [0x27] @ ustr ''/>'')] [],
        Chars nl,
        Node (ustr ''body'') [] [] False
          [Chars nl,
           Node (ustr ''outline'') [(ustr '' '', ustr ''text'', ustr ''Folder'')] [] False
             [Chars (nl @ ustr ''  ''),
              Node (ustr ''outline'')
                [(ustr '' '', ustr ''text'', ustr ''Q&amp;A''),
                 (nl @ ustr ''           '', ustr ''xmlUrl'', ustr ''http://a.com/1'')]
                (ustr '' '') True [] [],
              Chars nl] [],
           Chars nl,
           Node (ustr ''OUTLINE'')
             [(ustr '' '', ustr ''text'', ustr ''B''),
              (ustr '' '', ustr ''xmlUrl'', ustr ''http://b.com/2'')] [] False [] [],
           Chars nl,
           Node (ustr ''outline'')
             [(ustr '' '', ustr ''xmlUrl'', ustr ''http://c.com/3''),
              (ustr '' '', ustr ''text'', ustr ''C'')] [] True [] [],
           Chars nl] [],
        Chars nl] []"

definition listing_items :: "written list" where
  "listing_items = [Chars listing_prolog, listing_root, Chars nl]"

definition listing_tree :: element where
  "listing_tree =
     Element (ustr ''opml'') [(ustr ''version'', ustr ''2.0'')]
       [Element (ustr ''head'') []
          [Element (ustr ''title'') [] [], Element (ustr ''link'') [(ustr ''rel'', ustr ''self'')] []],
        Element (ustr ''body'') []
          [Element (ustr ''outline'') [(ustr ''text'', ustr ''Folder'')]
             [Element (ustr ''outline'')
                [(ustr ''text'', ustr ''Q&A''), (ustr ''xmlUrl'', ustr ''http://a.com/1'')] []],
           Element (ustr ''OUTLINE'')
             [(ustr ''text'', ustr ''B''), (ustr ''xmlUrl'', ustr ''http://b.com/2'')] [],
           Element (ustr ''outline'')
             [(ustr ''xmlUrl'', ustr ''http://c.com/3''), (ustr ''text'', ustr ''C'')] []]]"

definition listing_runtime :: runtime where
  "listing_runtime =
     example_runtime (\<lambda>p. Inr (concat (map text_of listing_items)))
       (\<lambda>s. Inr listing_tree)
       (\<lambda>s. if s = ustr ''Q&amp;A'' then Inr (ustr ''Q&A'') else Inr s)"

text \<open>A text with a bare \<^verbatim>\<open>&\<close>, entity references and typographic characters.\<close>

definition typography_sample :: ustring where
  "typography_sample =
     ustr ''Q&A &amp; &nbsp;&#8217;&#x2019; '' @ [0x2019, 0x201C, 0x2026, 0xA0, 0x2014, 0x201D]"

section \<open>Evaluation on concrete inputs\<close>

lemmas example_defs =
  ustr_def dq_def nl_def example_path_def example_runtime_def ascii_digit_def ascii_space_def
  ascii_lower_def
  scenario1_doc_def scenario1_tree_def scenario1_runtime_def unclosed_doc_def unclosed_runtime_def
  undecodable_runtime_def twice_encoded_outline_def twice_encoded_runtime_def
  scenario5_outline_def scenario5_tag_def empty_type_outline_def empty_type_tag_def
  hyphen_type_outline_def hyphen_type_doc_def hyphen_type_runtime_def
  spaced_type_doc_def spaced_type_runtime_def
  other_url_outline_def other_url_doc_def other_url_runtime_def
  quoted_name_outline_def quoted_name_doc_def quoted_name_runtime_def
  single_quoted_doc_def single_quoted_runtime_def
  empty_url_outline_def folder_outline_def empty_url_match_def nested_doc_def nested_tree_def
  typography_sample_def

lemmas model_defs =
  fix_xml_encoding_def fix_other_issues_def entity_follows_def hex_digit_def
  html_unescape_def print_line_def get_def get_default_def findall_outline_def
  outline_record_def outline_step_def primary_walk_def primary_path_def
  literal_def literal_ignorecase_def ignorecase_class_def outline_pattern_def attribute_pattern_def attribute_search_def
  match_record_def match_step_def fallback_scan_def
  parse_opml_file_fallback_def parse_opml_file_def Let_def

section \<open>Properties of the normalizer\<close>

lemma starts_with_escape:
  "0x26 \<notin> set p \<Longrightarrow> starts_with p (escape_bare_ampersands D cs) = starts_with p cs"
proof (induction p cs rule: starts_with.induct)
  case (3 p ps c cs)
  then show ?case by (auto simp: ustr_def)
qed simp_all

lemma one_or_more_escape:
  "\<not> cls 0x26 \<Longrightarrow>
   one_or_more_then_semi cls (escape_bare_ampersands D cs) = one_or_more_then_semi cls cs"
proof (induction cs)
  case Nil
  then show ?case by simp
next
  case (Cons c cs)
  have s: "starts_with (ustr '';'') (escape_bare_ampersands D cs) = starts_with (ustr '';'') cs"
    by (rule starts_with_escape) (simp add: ustr_def)
  show ?case
  proof (cases "c = 0x26")
    case True
    with Cons.prems show ?thesis by (simp add: ustr_def)
  next
    case False
    with Cons s show ?thesis by simp
  qed
qed

lemma drop_escape:
  "starts_with p cs \<Longrightarrow> 0x26 \<notin> set p \<Longrightarrow>
   drop (length p) (escape_bare_ampersands D cs) = escape_bare_ampersands D (drop (length p) cs)"
  by (induction p cs rule: starts_with.induct) auto

lemma hex_digit_amp: "\<not> hex_digit 0x26"
  by (simp add: hex_digit_def)

lemma entity_follows_escape:
  assumes "\<not> D 0x26"
  shows "entity_follows D (escape_bare_ampersands D cs) = entity_follows D cs"
proof -
  have a: "\<And>p. 0x26 \<notin> set (ustr p) \<Longrightarrow>
            starts_with (ustr p) (escape_bare_ampersands D cs) = starts_with (ustr p) cs"
    by (rule starts_with_escape)
  have d1: "starts_with (ustr ''#'') cs \<Longrightarrow>
       drop 1 (escape_bare_ampersands D cs) = escape_bare_ampersands D (drop 1 cs)"
    using drop_escape[of "ustr ''#''" cs D] by (simp add: ustr_def)
  have d2: "starts_with (ustr ''#x'') cs \<Longrightarrow>
       drop 2 (escape_bare_ampersands D cs) = escape_bare_ampersands D (drop 2 cs)"
    using drop_escape[of "ustr ''#x''" cs D] by (simp add: ustr_def numeral_2_eq_2)
  have s: "starts_with (ustr ''amp;'') (escape_bare_ampersands D cs) = starts_with (ustr ''amp;'') cs"
      "starts_with (ustr ''lt;'') (escape_bare_ampersands D cs) = starts_with (ustr ''lt;'') cs"
      "starts_with (ustr ''gt;'') (escape_bare_ampersands D cs) = starts_with (ustr ''gt;'') cs"
      "starts_with (ustr ''quot;'') (escape_bare_ampersands D cs) = starts_with (ustr ''quot;'') cs"
      "starts_with (ustr ''apos;'') (escape_bare_ampersands D cs) = starts_with (ustr ''apos;'') cs"
      "starts_with (ustr ''#'') (escape_bare_ampersands D cs) = starts_with (ustr ''#'') cs"
      "starts_with (ustr ''#x'') (escape_bare_ampersands D cs) = starts_with (ustr ''#x'') cs"
    by (rule a, simp add: ustr_def)+
  show ?thesis
    unfolding entity_follows_def s
    using d1 d2 one_or_more_escape[of D D] assms one_or_more_escape[of hex_digit D] hex_digit_amp
    by auto
qed

lemma escaped_append_amp_free: "0x26 \<notin> set p \<Longrightarrow> escaped D (p @ t) = escaped D t"
  by (induction p) auto

lemma escaped_escape:
  assumes "\<not> D 0x26"
  shows "escaped D (escape_bare_ampersands D s)"
proof (induction s)
  case Nil
  then show ?case by simp
next
  case (Cons c cs)
  show ?case
  proof (cases "c = 0x26 \<and> \<not> entity_follows D cs")
    case True
    have "escape_bare_ampersands D (c # cs) = 0x26 # (ustr ''amp;'' @ escape_bare_ampersands D cs)"
      using True by (simp add: ustr_def)
    moreover have "entity_follows D (ustr ''amp;'' @ escape_bare_ampersands D cs)"
      by (simp add: entity_follows_def ustr_def)
    moreover have "escaped D (ustr ''amp;'' @ escape_bare_ampersands D cs)"
      using Cons.IH by (simp add: escaped_append_amp_free ustr_def)
    ultimately show ?thesis by simp
  next
    case False
    then show ?thesis using Cons.IH entity_follows_escape[of D cs] assms by auto
  qed
qed

lemma escape_escaped: "escaped D s \<Longrightarrow> escape_bare_ampersands D s = s"
  by (induction s) auto

lemma entity_not_nbsp: "entity_follows D cs \<Longrightarrow> \<not> starts_with (ustr ''nbsp;'') cs"
  by (cases cs) (auto simp: entity_follows_def ustr_def)

lemma replace_nbsp_escaped:
  "escaped D s \<Longrightarrow> replace (ustr ''&nbsp;'') new s = s"
proof (induction s)
  case Nil
  then show ?case by (simp add: ustr_def)
next
  case (Cons c cs)
  have "\<not> starts_with (ustr ''&nbsp;'') (c # cs)"
  proof
    assume a: "starts_with (ustr ''&nbsp;'') (c # cs)"
    then have "c = 0x26" and n: "starts_with (ustr ''nbsp;'') cs" by (simp_all add: ustr_def)
    with Cons.prems have "entity_follows D cs" by simp
    with n entity_not_nbsp show False by blast
  qed
  moreover have "replace (ustr ''&nbsp;'') new cs = cs" using Cons by simp
  ultimately show ?case by (auto simp: ustr_def)
qed

lemma replace_single_Cons:
  "replace [x] new (c # cs) = (if c = x then new else [c]) @ replace [x] new cs"
  by simp

lemma replace_single_Nil: "replace [x] new [] = []"
  by simp

lemma replace_absent: "x \<notin> set s \<Longrightarrow> replace [x] new s = s"
  by (induction s) (simp_all only: replace_single_Cons replace_single_Nil, auto)

lemma set_replace_single:
  "set (replace [x] new s) = (set s - {x}) \<union> (if x \<in> set s then set new else {})"
proof (induction s)
  case Nil
  show ?case by (simp only: replace_single_Nil) simp
next
  case (Cons c cs)
  show ?case
    by (simp only: replace_single_Cons set_append Cons.IH) auto
qed

lemma starts_with_replace:
  "starts_with p cs \<Longrightarrow> x \<notin> set p \<Longrightarrow> starts_with p (replace [x] new cs)"
  by (induction p cs rule: starts_with.induct) auto

lemma drop_replace:
  "starts_with p cs \<Longrightarrow> x \<notin> set p \<Longrightarrow>
   drop (length p) (replace [x] new cs) = replace [x] new (drop (length p) cs)"
  by (induction p cs rule: starts_with.induct) auto

lemma one_or_more_replace:
  "one_or_more_then_semi cls cs \<Longrightarrow> \<not> cls x \<Longrightarrow> x \<noteq> 0x3B \<Longrightarrow>
   one_or_more_then_semi cls (replace [x] new cs)"
proof (induction cs)
  case Nil
  then show ?case by simp
next
  case (Cons c cs)
  from Cons.prems have c: "cls c" "c \<noteq> x" by auto
  from Cons.prems have "starts_with (ustr '';'') cs \<or> one_or_more_then_semi cls cs" by simp
  then have "starts_with (ustr '';'') (replace [x] new cs) \<or> one_or_more_then_semi cls (replace [x] new cs)"
  proof
    assume "starts_with (ustr '';'') cs"
    then have "starts_with (ustr '';'') (replace [x] new cs)"
      using Cons.prems(3) by (intro starts_with_replace) (simp_all add: ustr_def)
    then show ?thesis ..
  next
    assume "one_or_more_then_semi cls cs"
    then show ?thesis using Cons.IH Cons.prems by simp
  qed
  with c show ?case by simp
qed

lemma entity_follows_replace:
  assumes e: "entity_follows D cs" and x: "128 \<le> x" and d: "\<not> D x"
  shows "entity_follows D (replace [x] new cs)"
proof -
  have h: "\<not> hex_digit x" using x by (simp add: hex_digit_def)
  have n: "x \<noteq> 0x3B" using x by simp
  have p: "\<And>p. starts_with (ustr p) cs \<Longrightarrow> list_all (\<lambda>c. c < 128) (ustr p) \<Longrightarrow>
              starts_with (ustr p) (replace [x] new cs)"
    using x by (intro starts_with_replace) (auto simp: list_all_iff)
  have d1: "starts_with (ustr ''#'') cs \<Longrightarrow>
       drop 1 (replace [x] new cs) = replace [x] new (drop 1 cs)"
    using drop_replace[of "ustr ''#''" cs x new] x by (simp add: ustr_def)
  have d2: "starts_with (ustr ''#x'') cs \<Longrightarrow>
       drop 2 (replace [x] new cs) = replace [x] new (drop 2 cs)"
    using drop_replace[of "ustr ''#x''" cs x new] x by (simp add: ustr_def numeral_2_eq_2)
  from e consider
      "starts_with (ustr ''amp;'') cs" | "starts_with (ustr ''lt;'') cs"
    | "starts_with (ustr ''gt;'') cs" | "starts_with (ustr ''quot;'') cs"
    | "starts_with (ustr ''apos;'') cs"
    | "starts_with (ustr ''#'') cs \<and> one_or_more_then_semi D (drop 1 cs)"
    | "starts_with (ustr ''#x'') cs \<and> one_or_more_then_semi hex_digit (drop 2 cs)"
    unfolding entity_follows_def by blast
  then show ?thesis
  proof cases
    case 1
    from p[OF this] show ?thesis by (simp add: entity_follows_def ustr_def)
  next
    case 2
    from p[OF this] show ?thesis by (simp add: entity_follows_def ustr_def)
  next
    case 3
    from p[OF this] show ?thesis by (simp add: entity_follows_def ustr_def)
  next
    case 4
    from p[OF this] show ?thesis by (simp add: entity_follows_def ustr_def)
  next
    case 5
    from p[OF this] show ?thesis by (simp add: entity_follows_def ustr_def)
  next
    case 6
    then have a: "starts_with (ustr ''#'') cs" and b: "one_or_more_then_semi D (drop 1 cs)" by simp_all
    have "starts_with (ustr ''#'') (replace [x] new cs)" using p[OF a] by (simp add: ustr_def)
    moreover have "one_or_more_then_semi D (drop 1 (replace [x] new cs))"
      unfolding d1[OF a] using one_or_more_replace[OF b d n] .
    ultimately show ?thesis unfolding entity_follows_def by blast
  next
    case 7
    then have a: "starts_with (ustr ''#x'') cs" and b: "one_or_more_then_semi hex_digit (drop 2 cs)" by simp_all
    have "starts_with (ustr ''#x'') (replace [x] new cs)" using p[OF a] by (simp add: ustr_def)
    moreover have "one_or_more_then_semi hex_digit (drop 2 (replace [x] new cs))"
      unfolding d2[OF a] using one_or_more_replace[OF b h n] .
    ultimately show ?thesis unfolding entity_follows_def by blast
  qed
qed

lemma escaped_replace:
  assumes "escaped D s" and x: "128 \<le> x" and d: "\<not> D x" and new: "0x26 \<notin> set new"
  shows "escaped D (replace [x] new s)"
  using assms(1)
proof (induction s)
  case Nil
  then show ?case by simp
next
  case (Cons c cs)
  then have ih: "escaped D (replace [x] new cs)" by simp
  show ?case
  proof (cases "c = x")
    case True
    then show ?thesis using ih new by (simp add: escaped_append_amp_free)
  next
    case False
    from Cons.prems have "c \<noteq> 0x26 \<or> entity_follows D cs" by simp
    then have "c \<noteq> 0x26 \<or> entity_follows D (replace [x] new cs)"
      using entity_follows_replace[of D cs x new] x d by blast
    with False ih show ?thesis by simp
  qed
qed

lemma fix_other_issues_escaped:
  assumes e: "escaped D s" and d: "list_all (\<lambda>c. \<not> D c) smart_typography"
  shows "escaped D (fix_other_issues s)"
proof -
  have r: "\<And>x (new::ustring) t. escaped D t \<Longrightarrow> x \<in> set smart_typography \<Longrightarrow> 0x26 \<notin> set new \<Longrightarrow>
             escaped D (replace [x] new t)"
  proof -
    fix x and new :: ustring and t assume t: "escaped D t" and x: "x \<in> set smart_typography" and n: "0x26 \<notin> set new"
    from x have "128 \<le> x" by (auto simp: smart_typography_def)
    moreover from x d have "\<not> D x" by (simp add: list_all_iff)
    ultimately show "escaped D (replace [x] new t)" using escaped_replace t n by blast
  qed
  have m: "0x2019 \<in> set smart_typography" "0x201C \<in> set smart_typography"
    "0x201D \<in> set smart_typography" "0x2013 \<in> set smart_typography"
    "0x2014 \<in> set smart_typography" "0xA0 \<in> set smart_typography"
    "0x2026 \<in> set smart_typography" "0x2018 \<in> set smart_typography"
    by (simp_all add: smart_typography_def)
  have n: "0x26 \<notin> set [0x27::nat]" "0x26 \<notin> set [0x22::nat]" "0x26 \<notin> set (ustr ''-'')"
    "0x26 \<notin> set (ustr '' '')" "0x26 \<notin> set (ustr ''...'')"
    by (simp_all add: ustr_def)
  show ?thesis
    unfolding fix_other_issues_def Let_def replace_nbsp_escaped[OF e]
    by (simp add: r e m n)
qed

lemma in_replace_iff:
  "x \<notin> set new \<Longrightarrow> (x \<in> set (replace [y] new s)) = (x \<noteq> y \<and> x \<in> set s)"
  by (auto simp: set_replace_single split: if_splits)

lemma fix_other_issues_clean:
  assumes e: "escaped D s"
  shows "list_all (\<lambda>c. c \<notin> set (fix_other_issues s)) smart_typography"
  unfolding fix_other_issues_def Let_def replace_nbsp_escaped[OF e] smart_typography_def
  by (simp add: in_replace_iff ustr_def)

lemma fix_other_issues_fixed:
  assumes e: "escaped D s" and c: "list_all (\<lambda>c. c \<notin> set s) smart_typography"
  shows "fix_other_issues s = s"
proof -
  from c have "0x2019 \<notin> set s" "0x201C \<notin> set s" "0x201D \<notin> set s" "0x2013 \<notin> set s"
    "0x2014 \<notin> set s" "0xA0 \<notin> set s" "0x2026 \<notin> set s" "0x2018 \<notin> set s"
    by (simp_all add: smart_typography_def)
  then show ?thesis
    unfolding fix_other_issues_def Let_def replace_nbsp_escaped[OF e]
    by (simp add: replace_absent)
qed

section \<open>Properties of the matcher\<close>

declare finditer.simps [simp del]

lemma matches_suffix:
  "matches pat s = Some (g, rest) \<Longrightarrow> length rest \<le> length s \<and> drop (length s - length rest) s = rest"
proof (induction pat s arbitrary: g rest rule: matches.induct)
  case (3 cls r c cs)
  then have "length rest \<le> length cs \<and> drop (length cs - length rest) cs = rest"
    by (simp split: if_splits)
  then show ?case by (simp add: Suc_diff_le)
next
  case (5 cls r c cs)
  then have "length rest \<le> length cs \<and> drop (length cs - length rest) cs = rest"
    by (auto split: if_splits option.splits)
  then show ?case by (simp add: Suc_diff_le)
next
  case (7 cls r c cs)
  show ?case
  proof (cases "matches r (c # cs)")
    case (Some a)
    with 7 show ?thesis by simp
  next
    case None
    with 7 have "length rest \<le> length cs \<and> drop (length cs - length rest) cs = rest"
      by (auto split: if_splits)
    then show ?thesis by (simp add: Suc_diff_le)
  qed
next
  case (9 cls r c cs)
  show ?case
  proof (cases "cls c")
    case False
    with 9 show ?thesis by simp
  next
    case True
    show ?thesis
    proof (cases "matches (Group_greedy_star cls # r) cs")
      case None
      with 9 True show ?thesis by simp
    next
      case (Some a)
      obtain g' rest' where a: "a = (g', rest')" by (cases a)
      with 9 True Some have "rest' = rest" by simp
      with "9.IH"(1)[OF True] Some a
      have "length rest \<le> length cs \<and> drop (length cs - length rest) cs = rest" by simp
      then show ?thesis by (simp add: Suc_diff_le)
    qed
  qed
qed simp_all

lemma matches_length: "matches pat s = Some (g, rest) \<Longrightarrow> length rest \<le> length s"
  using matches_suffix by blast

lemma search_bounds: "search pat s = Some (i, g, rest) \<Longrightarrow> i + length rest \<le> length s"
proof (induction pat s arbitrary: i g rest rule: search.induct)
  case (1 pat)
  then show ?case by (auto split: option.splits dest: matches_length)
next
  case (2 pat c cs)
  then show ?case by (fastforce split: option.splits dest: matches_length)
qed

lemma search_suffix: "search pat s = Some (i, g, rest) \<Longrightarrow> drop (length s - length rest) s = rest"
proof (induction pat s arbitrary: i g rest rule: search.induct)
  case (1 pat)
  then show ?case by (auto split: option.splits dest: matches_suffix)
next
  case (2 pat c cs)
  show ?case
  proof (cases "matches pat (c # cs)")
    case (Some a)
    with 2 show ?thesis using matches_suffix[of pat "c # cs"] by (auto split: prod.splits)
  next
    case None
    with 2 obtain j where j: "search pat cs = Some (j, g, rest)" by (auto split: option.splits)
    from "2.IH"[OF None j] search_bounds[OF j] show ?thesis by (simp add: Suc_diff_le)
  qed
qed

lemma finditer_bounds:
  "m \<in> set (finditer pat pos s) \<Longrightarrow>
     pos \<le> m_start m \<and> m_start m \<le> m_end m \<and> m_end m \<le> pos + length s"
proof (induction pat pos s arbitrary: m rule: finditer.induct)
  case (1 pat pos s)
  show ?case
  proof (cases "search pat s")
    case None
    with "1.prems" show ?thesis by (simp add: finditer.simps)
  next
    case (Some r)
    obtain i g rest where r: "r = (i, g, rest)" by (cases r)
    have b: "i + length rest \<le> length s" using search_bounds Some r by blast
    let ?hd = "\<lparr>m_start = pos + i, m_end = pos + (length s - length rest),
           group0 = take (length s - length rest - i) (drop i s), group1 = g\<rparr>"
    from "1.prems" Some r
    have "m = ?hd \<or> (length rest < length s \<and> m \<in> set (finditer pat (pos + (length s - length rest)) rest))"
      by (subst (asm) finditer.simps) (auto split: if_splits)
    then show ?thesis
    proof
      assume "m = ?hd" with b show ?thesis by simp
    next
      assume a: "length rest < length s \<and> m \<in> set (finditer pat (pos + (length s - length rest)) rest)"
      then have lt: "length rest < length s"
        and mem: "m \<in> set (finditer pat (pos + (length s - length rest)) rest)" by blast+
      have "pos + (length s - length rest) \<le> m_start m \<and> m_start m \<le> m_end m \<and>
            m_end m \<le> pos + (length s - length rest) + length rest"
        using "1.IH"[OF Some r[symmetric] refl lt mem] .
      with b show ?thesis by arith
    qed
  qed
qed

lemma finditer_sorted: "sorted_wrt (\<lambda>a b. m_end a \<le> m_start b) (finditer pat pos s)"
proof (induction pat pos s rule: finditer.induct)
  case (1 pat pos s)
  show ?case
  proof (cases "search pat s")
    case None
    then show ?thesis by (simp add: finditer.simps)
  next
    case (Some r)
    obtain i g rest where r: "r = (i, g, rest)" by (cases r)
    show ?thesis
    proof (cases "length rest < length s")
      case True
      have ih: "sorted_wrt (\<lambda>a b. m_end a \<le> m_start b) (finditer pat (pos + (length s - length rest)) rest)"
        using "1.IH"[OF Some r[symmetric] refl True] .
      have "\<forall>m \<in> set (finditer pat (pos + (length s - length rest)) rest). pos + (length s - length rest) \<le> m_start m"
        using finditer_bounds by blast
      with ih Some r True show ?thesis by (subst finditer.simps) simp
    next
      case False
      with Some r show ?thesis by (subst finditer.simps) simp
    qed
  qed
qed

lemma finditer_group0:
  "m \<in> set (finditer pat pos s) \<Longrightarrow> group0 m = take (m_end m - m_start m) (drop (m_start m - pos) s)"
proof (induction pat pos s arbitrary: m rule: finditer.induct)
  case (1 pat pos s)
  show ?case
  proof (cases "search pat s")
    case None
    with "1.prems" show ?thesis by (simp add: finditer.simps)
  next
    case (Some r)
    obtain i g rest where r: "r = (i, g, rest)" by (cases r)
    have b: "i + length rest \<le> length s" using search_bounds Some r by blast
    let ?hd = "\<lparr>m_start = pos + i, m_end = pos + (length s - length rest),
           group0 = take (length s - length rest - i) (drop i s), group1 = g\<rparr>"
    from "1.prems" Some r
    have "m = ?hd \<or> (length rest < length s \<and> m \<in> set (finditer pat (pos + (length s - length rest)) rest))"
      by (subst (asm) finditer.simps) (auto split: if_splits)
    then show ?thesis
    proof
      assume "m = ?hd" with b show ?thesis by simp
    next
      assume a: "length rest < length s \<and> m \<in> set (finditer pat (pos + (length s - length rest)) rest)"
      then have lt: "length rest < length s"
        and mem: "m \<in> set (finditer pat (pos + (length s - length rest)) rest)" by blast+
      have g: "group0 m = take (m_end m - m_start m) (drop (m_start m - (pos + (length s - length rest))) rest)"
        using "1.IH"[OF Some r[symmetric] refl lt mem] .
      have bb: "pos + (length s - length rest) \<le> m_start m" using finditer_bounds mem by blast
      have sfx: "drop (length s - length rest) s = rest" using search_suffix Some r by blast
      have "drop (m_start m - (pos + (length s - length rest))) rest
            = drop (m_start m - (pos + (length s - length rest)) + (length s - length rest)) s"
        by (subst sfx[symmetric]) (simp add: add.commute)
      also have "m_start m - (pos + (length s - length rest)) + (length s - length rest) = m_start m - pos"
        using bb by simp
      finally show ?thesis using g by simp
    qed
  qed
qed


lemma matches_classes:
  "matches (map Class ps @ r) s =
     (if accepts ps s then matches r (drop (length ps) s) else None)"
proof (induction ps s rule: accepts.induct)
  case (1 s)
  then show ?case by simp
next
  case (2 p ps)
  then show ?case by simp
next
  case (3 p ps c cs)
  then show ?case by simp
qed

lemma accepts_append:
  "accepts (ps @ qs) s = (accepts ps s \<and> accepts qs (drop (length ps) s))"
  by (induction ps s rule: accepts.induct) simp_all

lemma accepts_length: "accepts ps s \<Longrightarrow> length ps \<le> length s"
  by (induction ps s rule: accepts.induct) simp_all

lemma accepts_nth: "accepts ps s \<Longrightarrow> i < length ps \<Longrightarrow> (ps ! i) (s ! i)"
proof (induction ps s arbitrary: i rule: accepts.induct)
  case (3 p ps c cs)
  then show ?case by (cases i) simp_all
qed simp_all

lemma accepts_take: "accepts ps s \<Longrightarrow> accepts ps (take (length ps) s @ t)"
  by (induction ps s rule: accepts.induct) simp_all

lemma accepts_append_text: "accepts ps s \<Longrightarrow> accepts ps (s @ t)"
  by (induction ps s rule: accepts.induct) simp_all

lemma accepts_self:
  "accepts (map (ignorecase_class rt) s) (s @ t)"
  by (induction s) (simp_all add: ignorecase_class_def)

lemma accepts_literals:
  "accepts (map (\<lambda>p c. c = p) lits) s = (take (length lits) s = lits)"
proof (induction lits arbitrary: s)
  case Nil
  then show ?case by simp
next
  case (Cons p lits)
  then show ?case by (cases s) auto
qed

lemma quoted_value:
  "matches [Group_greedy_star (\<lambda>c. c \<noteq> 0x22), literal 0x22] s =
     (if 0x22 \<in> set s
      then Some (takeWhile (\<lambda>c. c \<noteq> 0x22) s, tl (dropWhile (\<lambda>c. c \<noteq> 0x22) s))
      else None)"
  by (induction s) (simp_all add: literal_def)

lemma attribute_pattern_split:
  "attribute_pattern name =
     map Class (map (\<lambda>p c. c = p) (name @ [0x3D, 0x22]))
     @ [Group_greedy_star (\<lambda>c. c \<noteq> 0x22), literal 0x22]"
  by (simp add: attribute_pattern_def literal_def comp_def)

lemma attribute_matches:
  "matches (attribute_pattern name) s =
     (if take (length name + 2) s = name @ [0x3D, 0x22] \<and> 0x22 \<in> set (drop (length name + 2) s)
      then Some (takeWhile (\<lambda>c. c \<noteq> 0x22) (drop (length name + 2) s),
                 tl (dropWhile (\<lambda>c. c \<noteq> 0x22) (drop (length name + 2) s)))
      else None)"
  unfolding attribute_pattern_split matches_classes accepts_literals quoted_value
  by simp

lemma attribute_matches_at:
  "matches (attribute_pattern name) (name @ [0x3D, 0x22] @ v @ 0x22 # post) =
     Some (takeWhile (\<lambda>c. c \<noteq> 0x22) v, tl (dropWhile (\<lambda>c. c \<noteq> 0x22) (v @ 0x22 # post)))"
proof -
  have "takeWhile (\<lambda>c. c \<noteq> 0x22) (v @ 0x22 # post) = takeWhile (\<lambda>c. c \<noteq> 0x22) v"
    by (induction v) simp_all
  then show ?thesis unfolding attribute_matches by simp
qed

lemma attribute_matches_Some:
  assumes "matches (attribute_pattern name) s = Some (v, rest)"
  shows "s = name @ [0x3D, 0x22] @ v @ 0x22 # rest \<and> 0x22 \<notin> set v"
proof -
  let ?d = "drop (length name + 2) s"
  from assms have t: "take (length name + 2) s = name @ [0x3D, 0x22]" and q: "0x22 \<in> set ?d"
    and v: "v = takeWhile (\<lambda>c. c \<noteq> 0x22) ?d" and r: "rest = tl (dropWhile (\<lambda>c. c \<noteq> 0x22) ?d)"
    unfolding attribute_matches by (simp_all split: if_splits)
  from q have ne: "dropWhile (\<lambda>c. c \<noteq> 0x22) ?d \<noteq> []" by (simp add: dropWhile_eq_Nil_conv)
  then obtain h t' where ht: "dropWhile (\<lambda>c. c \<noteq> 0x22) ?d = h # t'"
    by (cases "dropWhile (\<lambda>c. c \<noteq> 0x22) ?d") auto
  from hd_dropWhile[OF ne] ht have "h = 0x22" by simp
  with ht r have "dropWhile (\<lambda>c. c \<noteq> 0x22) ?d = 0x22 # rest" by simp
  then have "?d = v @ 0x22 # rest"
    using takeWhile_dropWhile_id[of "\<lambda>c. c \<noteq> 0x22" ?d] v by simp
  moreover have "s = take (length name + 2) s @ ?d" by simp
  ultimately have "s = name @ [0x3D, 0x22] @ v @ 0x22 # rest" using t by simp
  moreover have "0x22 \<notin> set v" unfolding v by (auto dest: set_takeWhileD)
  ultimately show ?thesis by blast
qed

lemma search_sound:
  "search pat s = Some (i, g, rest) \<Longrightarrow> i \<le> length s \<and> matches pat (drop i s) = Some (g, rest)"
proof (induction pat s arbitrary: i rule: search.induct)
  case (1 pat)
  then show ?case by (auto split: option.splits)
next
  case (2 pat c cs)
  show ?case
  proof (cases "matches pat (c # cs)")
    case (Some a)
    with 2 show ?thesis by (auto split: prod.splits)
  next
    case None
    with "2.prems" obtain j where j: "search pat cs = Some (j, g, rest)" and i: "i = Suc j"
      by (auto split: option.splits)
    from "2.IH"[OF None j] i show ?thesis by simp
  qed
qed

lemma search_first:
  "search pat s = Some (i, g, rest) \<Longrightarrow> j < i \<Longrightarrow> matches pat (drop j s) = None"
proof (induction pat s arbitrary: i j rule: search.induct)
  case (1 pat)
  then show ?case by (auto split: option.splits)
next
  case (2 pat c cs)
  show ?case
  proof (cases "matches pat (c # cs)")
    case (Some a)
    with "2.prems" show ?thesis by (auto split: prod.splits)
  next
    case None
    with "2.prems" obtain k where k: "search pat cs = Some (k, g, rest)" and i: "i = Suc k"
      by (auto split: option.splits)
    show ?thesis
    proof (cases j)
      case 0
      with None show ?thesis by simp
    next
      case (Suc j')
      with "2.prems"(2) i have "j' < k" by simp
      from "2.IH"[OF None k this] Suc show ?thesis by simp
    qed
  qed
qed

lemma search_none:
  "search pat s = None \<Longrightarrow> j \<le> length s \<Longrightarrow> matches pat (drop j s) = None"
proof (induction pat s arbitrary: j rule: search.induct)
  case (1 pat)
  then show ?case by (auto split: option.splits)
next
  case (2 pat c cs)
  from "2.prems"(1) have n: "matches pat (c # cs) = None" and s: "search pat cs = None"
    by (auto split: option.splits)
  show ?case
  proof (cases j)
    case 0
    with n show ?thesis by simp
  next
    case (Suc j')
    with "2.prems"(2) have "j' \<le> length cs" by simp
    from "2.IH"[OF n s this] Suc show ?thesis by simp
  qed
qed

lemma attribute_search_Some:
  assumes "attribute_search name text = Some v"
  shows "\<exists>pre post. text = pre @ name @ [0x3D, 0x22] @ v @ 0x22 # post \<and> 0x22 \<notin> set v
           \<and> (\<forall>pre' v' post'. text = pre' @ name @ [0x3D, 0x22] @ v' @ 0x22 # post'
                 \<longrightarrow> length pre \<le> length pre')"
proof -
  from assms obtain i rest where s: "search (attribute_pattern name) text = Some (i, v, rest)"
    by (auto simp: attribute_search_def split: option.splits)
  from search_sound[OF s] have i: "i \<le> length text"
    and m: "matches (attribute_pattern name) (drop i text) = Some (v, rest)" by simp_all
  from attribute_matches_Some[OF m]
  have d: "drop i text = name @ [0x3D, 0x22] @ v @ 0x22 # rest" and q: "0x22 \<notin> set v" by simp_all
  have "text = take i text @ drop i text" by simp
  with d have t: "text = take i text @ name @ [0x3D, 0x22] @ v @ 0x22 # rest" by simp
  have l: "length (take i text) = i" using i by simp
  have f: "\<forall>pre' v' post'. text = pre' @ name @ [0x3D, 0x22] @ v' @ 0x22 # post'
             \<longrightarrow> length (take i text) \<le> length pre'"
  proof (intro allI impI)
    fix pre' v' post'
    assume e: "text = pre' @ name @ [0x3D, 0x22] @ v' @ 0x22 # post'"
    show "length (take i text) \<le> length pre'"
    proof (rule ccontr)
      assume "\<not> length (take i text) \<le> length pre'"
      with l have "length pre' < i" by simp
      from search_first[OF s this] have "matches (attribute_pattern name) (drop (length pre') text) = None" .
      moreover have "drop (length pre') text = name @ [0x3D, 0x22] @ v' @ 0x22 # post'"
        by (subst e) simp
      ultimately show False using attribute_matches_at[of name v' post'] by simp
    qed
  qed
  from t q f show ?thesis by blast
qed

lemma attribute_search_None:
  assumes "attribute_search name text = None"
  shows "text \<noteq> pre @ name @ [0x3D, 0x22] @ v @ 0x22 # post"
proof
  assume e: "text = pre @ name @ [0x3D, 0x22] @ v @ 0x22 # post"
  from assms have s: "search (attribute_pattern name) text = None"
    by (auto simp: attribute_search_def split: option.splits)
  have "length pre \<le> length text" by (subst e) simp
  from search_none[OF s this] have "matches (attribute_pattern name) (drop (length pre) text) = None" .
  moreover have "drop (length pre) text = name @ [0x3D, 0x22] @ v @ 0x22 # post"
    by (subst e) simp
  ultimately show False using attribute_matches_at[of name v post] by simp
qed


section \<open>Properties of the two loops\<close>

lemma html_unescape_plain: "0x26 \<notin> set t \<Longrightarrow> html_unescape rt t = Inr t"
  by (simp add: html_unescape_def)

lemma html_unescape_Nil: "html_unescape rt [] = Inr []"
  by (simp add: html_unescape_def)

lemma outline_record_fields:
  assumes "outline_record rt cat outline u = Inr f"
  shows "url f = u" "category f = cat"
    "feed_type f = (case get outline (ustr ''type'') of None \<Rightarrow> ustr ''rss'' | Some v \<Rightarrow> v)"
  using assms
  by (auto simp: outline_record_def Let_def get_default_def split: sum.splits if_splits)

lemma match_record_fields:
  assumes "match_record rt cat m = Inr f"
  shows "url f = group1 m" "category f = cat"
    "feed_type f =
       (case attribute_search (ustr ''type'') (group0 m) of None \<Rightarrow> ustr ''rss'' | Some v \<Rightarrow> v)"
  using assms
  by (auto simp: match_record_def Let_def split: sum.splits if_splits)

lemma outline_step_eq:
  "outline_step rt cat feeds outline =
     (if truthy (get outline (ustr ''xmlUrl''))
      then (case outline_record rt cat outline (get_default outline (ustr ''xmlUrl'') []) of
              Inl e \<Rightarrow> Inl e
            | Inr f \<Rightarrow> Inr (feeds @ [f]))
      else Inr feeds)"
  by (cases "get outline (ustr ''xmlUrl'')") (simp_all add: outline_step_def get_default_def)

lemma match_step_eq:
  "match_step rt cat feeds m =
     (if group1 m \<noteq> []
      then (case match_record rt cat m of Inl e \<Rightarrow> Inl e | Inr f \<Rightarrow> Inr (feeds @ [f]))
      else Inr feeds)"
  by (simp add: match_step_def)

lemma for_each_collect:
  assumes step: "\<And>s x. step s x =
      (if q x then (case r x of Inl e \<Rightarrow> Inl e | Inr f \<Rightarrow> Inr (s @ [f])) else Inr s)"
  shows "for_each step acc xs =
     (acc @ map projr (takeWhile (\<lambda>y. \<not> isl y) (map r (filter q xs))),
      (case dropWhile (\<lambda>y. \<not> isl y) (map r (filter q xs)) of
         [] \<Rightarrow> None
       | y # ys \<Rightarrow> Some (projl y)))"
proof (induction xs arbitrary: acc)
  case Nil
  then show ?case by simp
next
  case (Cons x xs)
  show ?case
  proof (cases "q x")
    case False
    then have "step acc x = Inr acc" by (simp add: step)
    with False Cons.IH[of acc] show ?thesis by simp
  next
    case True
    show ?thesis
    proof (cases "r x")
      case (Inl e)
      with True have "step acc x = Inl e" by (simp add: step)
      with True Inl show ?thesis by simp
    next
      case (Inr f)
      with True have "step acc x = Inr (acc @ [f])" by (simp add: step)
      with True Inr Cons.IH[of "acc @ [f]"] show ?thesis by simp
    qed
  qed
qed

lemma primary_walk_eq:
  "primary_walk rt cat root =
     (map projr (takeWhile (\<lambda>y. \<not> isl y)
        (map (\<lambda>outline. outline_record rt cat outline (get_default outline (ustr ''xmlUrl'') []))
             (filter (\<lambda>outline. truthy (get outline (ustr ''xmlUrl''))) (findall_outline root)))),
      (case dropWhile (\<lambda>y. \<not> isl y)
        (map (\<lambda>outline. outline_record rt cat outline (get_default outline (ustr ''xmlUrl'') []))
             (filter (\<lambda>outline. truthy (get outline (ustr ''xmlUrl''))) (findall_outline root))) of
         [] \<Rightarrow> None
       | y # ys \<Rightarrow> Some (projl y)))"
  unfolding primary_walk_def
  using for_each_collect[of "outline_step rt cat" "\<lambda>outline. truthy (get outline (ustr ''xmlUrl''))"
      "\<lambda>outline. outline_record rt cat outline (get_default outline (ustr ''xmlUrl'') [])" "[]"
      "findall_outline root"]
  by (simp add: outline_step_eq)

lemma fallback_scan_eq:
  "fallback_scan rt cat content =
     (map projr (takeWhile (\<lambda>y. \<not> isl y)
        (map (match_record rt cat)
             (filter (\<lambda>m. group1 m \<noteq> []) (finditer (outline_pattern rt) 0 content)))),
      (case dropWhile (\<lambda>y. \<not> isl y)
        (map (match_record rt cat)
             (filter (\<lambda>m. group1 m \<noteq> []) (finditer (outline_pattern rt) 0 content))) of
         [] \<Rightarrow> None
       | y # ys \<Rightarrow> Some (projl y)))"
  unfolding fallback_scan_def
  using for_each_collect[of "match_step rt cat" "\<lambda>m. group1 m \<noteq> []" "match_record rt cat" "[]"
      "finditer (outline_pattern rt) 0 content"]
  by (simp add: match_step_eq)

lemma for_each_outline_step:
  assumes "for_each (outline_step rt cat) acc xs = (feeds, x)" and "f \<in> set feeds"
  shows "f \<in> set acc \<or>
         (\<exists>outline \<in> set xs. \<exists>u. get outline (ustr ''xmlUrl'') = Some u \<and> u \<noteq> []
            \<and> outline_record rt cat outline u = Inr f)"
  using assms
proof (induction xs arbitrary: acc)
  case Nil
  then show ?case by simp
next
  case (Cons a xs)
  show ?case
  proof (cases "outline_step rt cat acc a")
    case (Inl e)
    with Cons.prems show ?thesis by simp
  next
    case (Inr s')
    with Cons.prems have "for_each (outline_step rt cat) s' xs = (feeds, x)" by simp
    from Cons.IH[OF this Cons.prems(2)]
    have "f \<in> set s' \<or>
         (\<exists>outline \<in> set xs. \<exists>u. get outline (ustr ''xmlUrl'') = Some u \<and> u \<noteq> []
            \<and> outline_record rt cat outline u = Inr f)" .
    then show ?thesis
    proof
      assume "f \<in> set s'"
      with Inr have "f \<in> set acc \<or>
          (\<exists>u. get a (ustr ''xmlUrl'') = Some u \<and> u \<noteq> [] \<and> outline_record rt cat a u = Inr f)"
        by (auto simp: outline_step_def split: option.splits if_splits sum.splits)
      then show ?thesis by auto
    next
      assume "\<exists>outline \<in> set xs. \<exists>u. get outline (ustr ''xmlUrl'') = Some u \<and> u \<noteq> []
            \<and> outline_record rt cat outline u = Inr f"
      then show ?thesis by auto
    qed
  qed
qed

lemma for_each_match_step:
  assumes "for_each (match_step rt cat) acc ms = (feeds, x)" and "f \<in> set feeds"
  shows "f \<in> set acc \<or> (\<exists>m \<in> set ms. group1 m \<noteq> [] \<and> match_record rt cat m = Inr f)"
  using assms
proof (induction ms arbitrary: acc)
  case Nil
  then show ?case by simp
next
  case (Cons a ms)
  show ?case
  proof (cases "match_step rt cat acc a")
    case (Inl e)
    with Cons.prems show ?thesis by simp
  next
    case (Inr s')
    with Cons.prems have "for_each (match_step rt cat) s' ms = (feeds, x)" by simp
    from Cons.IH[OF this Cons.prems(2)]
    have "f \<in> set s' \<or> (\<exists>m \<in> set ms. group1 m \<noteq> [] \<and> match_record rt cat m = Inr f)" .
    then show ?thesis
    proof
      assume "f \<in> set s'"
      with Inr have "f \<in> set acc \<or> (group1 a \<noteq> [] \<and> match_record rt cat a = Inr f)"
        by (auto simp: match_step_def split: if_splits sum.splits)
      then show ?thesis by auto
    next
      assume "\<exists>m \<in> set ms. group1 m \<noteq> [] \<and> match_record rt cat m = Inr f"
      then show ?thesis by auto
    qed
  qed
qed

lemma primary_walk_urls: "f \<in> set (fst (primary_walk rt cat root)) \<Longrightarrow> url f \<noteq> []"
proof -
  assume f: "f \<in> set (fst (primary_walk rt cat root))"
  obtain feeds x where p: "primary_walk rt cat root = (feeds, x)" by (cases "primary_walk rt cat root")
  with f have "f \<in> set feeds" by simp
  from for_each_outline_step[OF p[unfolded primary_walk_def] this]
  obtain outline u where "u \<noteq> []" "outline_record rt cat outline u = Inr f" by auto
  with outline_record_fields(1) show ?thesis by blast
qed

lemma fallback_scan_urls: "f \<in> set (fst (fallback_scan rt cat content)) \<Longrightarrow> url f \<noteq> []"
proof -
  assume f: "f \<in> set (fst (fallback_scan rt cat content))"
  obtain feeds x where p: "fallback_scan rt cat content = (feeds, x)"
    by (cases "fallback_scan rt cat content")
  with f have "f \<in> set feeds" by simp
  from for_each_match_step[OF p[unfolded fallback_scan_def] this]
  obtain m where "group1 m \<noteq> []" "match_record rt cat m = Inr f" by auto
  with match_record_fields(1) show ?thesis by metis
qed

lemma primary_path_urls: "f \<in> set (fst (primary_path rt file_path)) \<Longrightarrow> url f \<noteq> []"
  by (auto simp: primary_path_def split: sum.splits dest: primary_walk_urls)

lemma parse_opml_file_fallback_urls:
  assumes "parse_opml_file_fallback rt file_path out = Inr (found, out')" and "f \<in> set found"
  shows "url f \<noteq> []"
proof (cases "read_file rt file_path")
  case (Inl e)
  with assms show ?thesis
    by (auto simp: parse_opml_file_fallback_def Let_def split: sum.splits)
next
  case (Inr content)
  obtain feeds x where s: "fallback_scan rt (path_stem rt file_path) content = (feeds, x)"
    by (cases "fallback_scan rt (path_stem rt file_path) content")
  with assms(1) Inr have "found = feeds"
    by (cases x) (auto simp: parse_opml_file_fallback_def Let_def split: sum.splits)
  with assms(2) s fallback_scan_urls[of f rt "path_stem rt file_path" content] show ?thesis by simp
qed

lemma parse_opml_file_urls:
  assumes "parse_opml_file rt file_path = Inr (feeds, out)" and "f \<in> set feeds"
  shows "url f \<noteq> []"
proof -
  obtain fs x where p: "primary_path rt file_path = (fs, x)" by (cases "primary_path rt file_path")
  have fs: "\<And>g. g \<in> set fs \<Longrightarrow> url g \<noteq> []"
    using primary_path_urls[of _ rt file_path] p by simp
  show ?thesis
  proof (cases x)
    case None
    with assms p fs show ?thesis by (simp add: parse_opml_file_def)
  next
    case (Some e)
    show ?thesis
    proof (cases e)
      case (OtherException msg)
      with assms p fs Some show ?thesis
        by (auto simp: parse_opml_file_def split: sum.splits)
    next
      case (ParseError msg)
      show ?thesis
      proof (cases "print_line rt (Error_parsing file_path (ParseError msg)) []")
        case (Inl pe)
        with assms p Some ParseError show ?thesis by (simp add: parse_opml_file_def)
      next
        case (Inr out0)
        show ?thesis
        proof (cases "parse_opml_file_fallback rt file_path out0")
          case (Inl fe)
          with assms p Some ParseError Inr fs show ?thesis
            by (auto simp: parse_opml_file_def split: sum.splits)
        next
          case inr: (Inr res)
          obtain found out' where res: "res = (found, out')" by (cases res)
          with assms(1) p Some ParseError Inr inr have "feeds = fs @ found"
            by (simp add: parse_opml_file_def)
          with assms(2) have "f \<in> set fs \<or> f \<in> set found" by simp
          then show ?thesis
            using fs parse_opml_file_fallback_urls[OF inr[unfolded res]] by blast
        qed
      qed
    qed
  qed
qed


lemma filter_iter:
  "filter (\<lambda>e. tag e = ustr ''outline'') (iter c) =
     (if tag c = ustr ''outline'' then [c] else []) @ findall_outline c"
  by (cases c) (simp add: findall_outline_def)

lemma findall_outline_rec:
  "findall_outline (Element t a cs) =
     concat (map (\<lambda>c. (if tag c = ustr ''outline'' then [c] else []) @ findall_outline c) cs)"
proof -
  have "findall_outline (Element t a cs) =
          concat (map (\<lambda>c. filter (\<lambda>e. tag e = ustr ''outline'') (iter c)) cs)"
    by (simp add: findall_outline_def filter_concat comp_def)
  then show ?thesis by (simp add: filter_iter)
qed

lemma matches_Class_length:
  "matches (Class cls # r) s = Some (g, rest) \<Longrightarrow> length rest < length s"
proof (cases s)
  case Nil
  assume "matches (Class cls # r) s = Some (g, rest)"
  with Nil show ?thesis by simp
next
  case (Cons c cs)
  assume "matches (Class cls # r) s = Some (g, rest)"
  with Cons have "matches r cs = Some (g, rest)" by (simp split: if_splits)
  from matches_length[OF this] Cons show ?thesis by simp
qed

lemma outline_pattern_nonempty:
  "matches (outline_pattern rt) s = Some (g, rest) \<Longrightarrow> length rest < length s"
  unfolding outline_pattern_def literal_def by (rule matches_Class_length)

lemma search_progress:
  assumes nonempty: "\<forall>s g rest. matches pat s = Some (g, rest) \<longrightarrow> length rest < length s"
  shows "search pat s = Some (i, g, rest) \<Longrightarrow> i + length rest < length s"
proof (induction s arbitrary: i)
  case Nil
  then have "matches pat [] = Some (g, rest)" by (auto split: option.splits)
  with nonempty have "length rest < length ([]::ustring)" by blast
  then show ?case by simp
next
  case (Cons c cs)
  show ?case
  proof (cases "matches pat (c # cs)")
    case (Some a)
    with Cons.prems have "matches pat (c # cs) = Some (g, rest)" and "i = 0"
      by (auto split: prod.splits)
    with nonempty show ?thesis by fastforce
  next
    case None
    with Cons.prems obtain j where j: "search pat cs = Some (j, g, rest)" and i: "i = Suc j"
      by (auto split: option.splits)
    from Cons.IH[OF j] i show ?thesis by simp
  qed
qed

lemma finditer_progress:
  assumes nonempty: "\<forall>s g rest. matches pat s = Some (g, rest) \<longrightarrow> length rest < length s"
  shows "m \<in> set (finditer pat pos s) \<Longrightarrow> m_start m < m_end m"
proof (induction "length s" arbitrary: s pos rule: less_induct)
  case less
  show ?case
  proof (cases "search pat s")
    case None
    with less.prems show ?thesis by (simp add: finditer.simps)
  next
    case (Some r)
    obtain i g rest where r: "r = (i, g, rest)" by (cases r)
    have b: "i + length rest < length s" using search_progress[OF nonempty, of s i g rest] Some r by simp
    let ?hd = "\<lparr>m_start = pos + i, m_end = pos + (length s - length rest),
           group0 = take (length s - length rest - i) (drop i s), group1 = g\<rparr>"
    from less.prems Some r
    have "m = ?hd \<or> (length rest < length s \<and> m \<in> set (finditer pat (pos + (length s - length rest)) rest))"
      by (subst (asm) finditer.simps) (auto split: if_splits)
    then show ?thesis
    proof
      assume "m = ?hd" with b show ?thesis by simp
    next
      assume "length rest < length s \<and> m \<in> set (finditer pat (pos + (length s - length rest)) rest)"
      then have lt: "length rest < length s"
        and mem: "m \<in> set (finditer pat (pos + (length s - length rest)) rest)" by blast+
      from less.hyps[OF lt mem] show ?thesis .
    qed
  qed
qed

lemma outline_matches_progress:
  "m \<in> set (finditer (outline_pattern rt) pos s) \<Longrightarrow> m_start m < m_end m"
proof (rule finditer_progress)
  show "\<forall>s g rest. matches (outline_pattern rt) s = Some (g, rest) \<longrightarrow> length rest < length s"
    using outline_pattern_nonempty by blast
qed


section \<open>Properties of document-level extraction\<close>

lemma print_line_Inl: "print_line rt line out = Inl e \<Longrightarrow> print_raises rt line = Some e"
  by (auto simp: print_line_def split: option.splits)

lemma parse_opml_file_fallback_eq:
  assumes "read_file rt file_path = Inr raw"
  shows "parse_opml_file_fallback rt file_path out =
     (case fallback_scan rt (path_stem rt file_path) raw of
        (found, None) \<Rightarrow> Inr (found, out)
      | (found, Some e) \<Rightarrow>
          (case print_line rt (Fallback_failed file_path e) out of
             Inl print_e \<Rightarrow> Inl print_e
           | Inr out' \<Rightarrow> Inr (found, out')))"
  by (simp add: parse_opml_file_fallback_def Let_def assms)

lemma parse_opml_file_Inl:
  assumes "parse_opml_file rt file_path = Inl e"
  shows "\<exists>x. print_raises rt (Error_parsing file_path x) = Some e
           \<or> print_raises rt (Fallback_also_failed file_path x) = Some e
           \<or> print_raises rt (Error_processing file_path x) = Some e"
proof -
  obtain fs x where p: "primary_path rt file_path = (fs, x)" by (cases "primary_path rt file_path")
  show ?thesis
  proof (cases x)
    case None
    with assms p show ?thesis by (simp add: parse_opml_file_def)
  next
    case (Some ex)
    show ?thesis
    proof (cases ex)
      case (OtherException msg)
      with assms p Some
      have "print_line rt (Error_processing file_path (OtherException msg)) [] = Inl e"
        by (simp add: parse_opml_file_def split: sum.splits)
      from print_line_Inl[OF this] show ?thesis by blast
    next
      case (ParseError msg)
      show ?thesis
      proof (cases "print_line rt (Error_parsing file_path (ParseError msg)) []")
        case (Inl pe)
        with assms p Some ParseError have "pe = e" by (simp add: parse_opml_file_def)
        with print_line_Inl[OF Inl] show ?thesis by blast
      next
        case (Inr out0)
        show ?thesis
        proof (cases "parse_opml_file_fallback rt file_path out0")
          case inr: (Inr res)
          with assms p Some ParseError Inr show ?thesis
            by (simp add: parse_opml_file_def split: prod.splits)
        next
          case (Inl fe)
          with assms p Some ParseError Inr
          have "print_line rt (Fallback_also_failed file_path fe) out0 = Inl e"
            by (simp add: parse_opml_file_def split: sum.splits)
          from print_line_Inl[OF this] show ?thesis by blast
        qed
      qed
    qed
  qed
qed

lemma until_raise_all:
  assumes "(case dropWhile (\<lambda>y. \<not> isl y) rs of [] \<Rightarrow> None | y # ys \<Rightarrow> Some (projl y)) = None"
  shows "map Inr (map projr (takeWhile (\<lambda>y. \<not> isl y) rs)) = rs"
proof -
  from assms have "dropWhile (\<lambda>y. \<not> isl y) rs = []"
    by (cases "dropWhile (\<lambda>y. \<not> isl y) rs") simp_all
  then have a: "\<forall>y \<in> set rs. \<not> isl y" by (simp add: dropWhile_eq_Nil_conv)
  then have tw: "takeWhile (\<lambda>y. \<not> isl y) rs = rs" by (simp add: takeWhile_eq_all_conv)
  have mm: "map Inr (map projr rs) = rs"
    using a by (induction rs) simp_all
  show ?thesis unfolding tw by (rule mm)
qed

section \<open>The scan of a written document\<close>

lemma lazy_to_gt:
  "0x3E \<notin> set w \<Longrightarrow>
   matches [Lazy_star (\<lambda>c. c \<noteq> 0x3E), literal 0x3E] (w @ 0x3E # rest) = Some ([], rest)"
  by (induction w) (simp_all add: literal_def)

lemma url_tail_matches:
  "0x22 \<notin> set u \<Longrightarrow> 0x3E \<notin> set w \<Longrightarrow>
   matches url_tail (u @ 0x22 # w @ 0x3E # rest) = Some (u, rest)"
proof (induction u)
  case Nil
  then show ?case using lazy_to_gt[of w rest] by (simp add: url_tail_def literal_def)
next
  case (Cons c u)
  then show ?case by (simp add: url_tail_def)
qed

lemma outline_pattern_split:
  "outline_pattern rt =
     map Class (opening_classes rt) @ Greedy_plus (re_space rt) # scan_pattern rt"
  by (simp add: outline_pattern_def opening_classes_def scan_pattern_def xmlurl_classes_def
      xmlurl_letters_def url_tail_def literal_def literal_ignorecase_def)

lemma ascii_tables_lower: "ascii_tables rt \<Longrightarrow> c < 128 \<Longrightarrow> re_lower rt c = ascii_lower c"
  by (simp add: ascii_tables_def list_all_iff)

lemma ascii_tables_space: "ascii_tables rt \<Longrightarrow> c < 128 \<Longrightarrow> re_space rt c = ascii_space c"
  by (simp add: ascii_tables_def list_all_iff)

lemma delimiter_small: "delimiter c \<Longrightarrow> c < 65"
  by (simp add: delimiter_def)

lemma letters_lower:
  "p \<in> set (ustr ''xmlUrl'') \<union> set (ustr ''outline'') \<Longrightarrow> p < 128 \<and> 97 \<le> ascii_lower p"
  by (auto simp: ustr_def ascii_lower_def)

lemma letter_not_delimiter:
  assumes t: "ascii_tables rt"
    and p: "p \<in> set (ustr ''xmlUrl'') \<union> set (ustr ''outline'')"
    and c: "delimiter c"
  shows "\<not> ignorecase_class rt p c"
proof -
  from delimiter_small[OF c] have c65: "c < 65" .
  then have lc: "re_lower rt c = c"
    using ascii_tables_lower[OF t, of c] by (simp add: ascii_lower_def)
  from letters_lower[OF p] have lp: "97 \<le> re_lower rt p"
    using ascii_tables_lower[OF t, of p] by simp
  from c65 lp show ?thesis
    unfolding ignorecase_class_def lc by simp
qed

lemma length_xmlUrl: "length (ustr ''xmlUrl'') = 6"
  by (simp add: ustr_def)

lemma xmlurl_letter_delimiter:
  assumes "ascii_tables rt" "i < 6" "delimiter c"
  shows "\<not> (xmlurl_letters rt ! i) c"
proof -
  have m: "ustr ''xmlUrl'' ! i \<in> set (ustr ''xmlUrl'')"
    using assms(2) by (intro nth_mem) (simp add: length_xmlUrl)
  have "xmlurl_letters rt ! i = ignorecase_class rt (ustr ''xmlUrl'' ! i)"
    unfolding xmlurl_letters_def using assms(2) by (intro nth_map) (simp add: length_xmlUrl)
  then show ?thesis
    using letter_not_delimiter[OF assms(1) _ assms(3), of "ustr ''xmlUrl'' ! i"] m by simp
qed

lemma length_xmlurl_letters [simp]: "length (xmlurl_letters rt) = 6"
  by (simp add: xmlurl_letters_def length_xmlUrl)

lemma length_xmlurl_classes [simp]: "length (xmlurl_classes rt) = 8"
  by (simp add: xmlurl_classes_def)

lemma accepts_xmlurl_classes:
  "accepts (xmlurl_classes rt) s =
     (accepts (xmlurl_letters rt) s \<and> accepts [\<lambda>c. c = 0x3D, \<lambda>c. c = 0x22] (drop 6 s))"
  by (simp add: xmlurl_classes_def accepts_append)

lemma not_at_delimiter:
  assumes "ascii_tables rt" "delimiter c"
  shows "\<not> accepts (xmlurl_classes rt) (c # t)"
proof
  assume "accepts (xmlurl_classes rt) (c # t)"
  then have "accepts (xmlurl_letters rt) (c # t)" by (simp add: accepts_xmlurl_classes)
  from accepts_nth[OF this, of 0] have "(xmlurl_letters rt ! 0) c" by simp
  with xmlurl_letter_delimiter[OF assms(1) _ assms(2), of 0] show False by simp
qed

lemma accepts_two:
  "accepts [\<lambda>c. c = a, \<lambda>c. c = b] d = (\<exists>t. d = a # b # t)"
proof (cases d)
  case Nil
  then show ?thesis by simp
next
  case (Cons x xs)
  then show ?thesis by (cases xs) auto
qed

lemma not_in_key:
  assumes t: "ascii_tables rt"
    and k: "0x3D \<notin> set k" 
    and x: "\<not> (length k = 6 \<and> accepts (xmlurl_letters rt) k)"
  shows "\<not> accepts (xmlurl_classes rt) (k @ 0x3D # 0x22 # z)"
proof
  let ?s = "k @ 0x3D # 0x22 # z"
  assume "accepts (xmlurl_classes rt) ?s"
  then have a: "accepts (xmlurl_letters rt) ?s"
    and b: "\<exists>t. drop 6 ?s = 0x3D # 0x22 # t"
    by (simp_all add: accepts_xmlurl_classes accepts_two)
  show False
  proof (cases "drop 6 k")
    case Nil
    then have le: "length k \<le> 6" by simp
    show False
    proof (cases "length k = 6")
      case True
      from accepts_take[OF a, of "[]"] True have "accepts (xmlurl_letters rt) k" by simp
      with True x show False by simp
    next
      case False
      with le have lt: "length k < 6" by simp
      from accepts_nth[OF a, of "length k"] lt have "(xmlurl_letters rt ! length k) 0x3D"
        by (simp add: nth_append)
      moreover have "delimiter 0x3D" by (simp add: delimiter_def)
      ultimately show False using xmlurl_letter_delimiter[OF t lt] by blast
    qed
  next
    case (Cons c k')
    then have "c \<in> set (drop 6 k)" by simp
    then have "c \<in> set k" by (rule in_set_dropD)
    moreover from b Cons have "c = 0x3D" by auto
    ultimately show False using k by simp
  qed
qed

lemma not_in_value:
  assumes t: "ascii_tables rt"
    and q: "0x22 \<notin> set v"
    and l: "v = [] \<or> last v \<noteq> 0x3D"
  shows "\<not> accepts (xmlurl_classes rt) (v @ 0x22 # z)"
proof
  let ?s = "v @ 0x22 # z"
  assume "accepts (xmlurl_classes rt) ?s"
  then have a: "accepts (xmlurl_letters rt) ?s"
    and b: "\<exists>t. drop 6 ?s = 0x3D # 0x22 # t"
    by (simp_all add: accepts_xmlurl_classes accepts_two)
  show False
  proof (cases "drop 6 v")
    case Nil
    then have le: "length v \<le> 6" by simp
    show False
    proof (cases "length v = 6")
      case True
      with b show False by simp
    next
      case False
      with le have lt: "length v < 6" by simp
      from accepts_nth[OF a, of "length v"] lt have "(xmlurl_letters rt ! length v) 0x22"
        by (simp add: nth_append)
      moreover have "delimiter 0x22" by (simp add: delimiter_def)
      ultimately show False using xmlurl_letter_delimiter[OF t lt] by blast
    qed
  next
    case (Cons c v')
    then have len: "6 < length v" by (cases "length v \<le> 6") auto
    show False
    proof (cases v')
      case Nil
      with Cons b have "c = 0x3D" by auto
      moreover have "last v = last (drop 6 v)" using len by (simp add: last_drop)
      ultimately have "last v = 0x3D" using Cons Nil by simp
      moreover from len have "v \<noteq> []" by auto
      ultimately show False using l by simp
    next
      case (Cons c' v'')
      with \<open>drop 6 v = c # v'\<close> have "c' \<in> set (drop 6 v)" by simp
      then have "c' \<in> set v" by (rule in_set_dropD)
      moreover from b Cons \<open>drop 6 v = c # v'\<close> have "c' = 0x22" by auto
      ultimately show False using q by simp
    qed
  qed
qed

lemma scan_step:
  "\<not> accepts (xmlurl_classes rt) (c # t) \<Longrightarrow> c \<noteq> 0x3E \<Longrightarrow>
   matches (scan_pattern rt) (c # t) = matches (scan_pattern rt) t"
  by (simp add: scan_pattern_def matches_classes)

lemma scan_hit:
  "accepts (xmlurl_classes rt) (c # t) \<Longrightarrow>
   matches (scan_pattern rt) (c # t) =
     (case matches url_tail (drop 8 (c # t)) of
        Some m \<Rightarrow> Some m
      | None \<Rightarrow> if c \<noteq> 0x3E then matches (scan_pattern rt) t else None)"
  unfolding scan_pattern_def by (simp add: matches_classes)

lemma scan_skip:
  "(\<And>i. i < length w \<Longrightarrow> \<not> accepts (xmlurl_classes rt) (drop i w @ z)) \<Longrightarrow>
   0x3E \<notin> set w \<Longrightarrow>
   matches (scan_pattern rt) (w @ z) = matches (scan_pattern rt) z"
proof (induction w)
  case Nil
  then show ?case by simp
next
  case (Cons c w)
  from Cons.prems(1)[of 0] have h: "\<not> accepts (xmlurl_classes rt) (c # w @ z)" by simp
  have t: "\<And>i. i < length w \<Longrightarrow> \<not> accepts (xmlurl_classes rt) (drop i w @ z)"
    using Cons.prems(1)[of "Suc _"] by simp
  from Cons.prems(2) have c: "c \<noteq> 0x3E" and w: "0x3E \<notin> set w" by simp_all
  have "matches (scan_pattern rt) ((c # w) @ z) = matches (scan_pattern rt) (w @ z)"
    using scan_step[OF h c] by simp
  with Cons.IH[OF t w] show ?case by simp
qed

lemma scan_skip_delimiter:
  assumes "ascii_tables rt" "delimiter c" "c \<noteq> 0x3E"
  shows "matches (scan_pattern rt) (c # t) = matches (scan_pattern rt) t"
  using scan_step[OF not_at_delimiter[OF assms(1,2)] assms(3)] .

lemma xmlurl_like_suffix:
  assumes "\<not> xmlurl_like rt k" "i < length k"
  shows "\<not> (length (drop i k) = 6 \<and> accepts (xmlurl_letters rt) (drop i k))"
proof
  assume a: "length (drop i k) = 6 \<and> accepts (xmlurl_letters rt) (drop i k)"
  then have "i = length k - 6" and "6 \<le> length k" by auto
  with a assms(1) show False by (simp add: xmlurl_like_def xmlurl_letters_def)
qed

lemma scan_skip_key:
  assumes t: "ascii_tables rt" and k: "0x3D \<notin> set k" "0x3E \<notin> set k"
    and x: "\<not> xmlurl_like rt k"
  shows "matches (scan_pattern rt) (k @ 0x3D # 0x22 # z) =
         matches (scan_pattern rt) (0x3D # 0x22 # z)"
proof (rule scan_skip)
  fix i assume i: "i < length k"
  have "0x3D \<notin> set (drop i k)" using k(1) by (meson in_set_dropD)
  from not_in_key[OF t this xmlurl_like_suffix[OF x i]]
  show "\<not> accepts (xmlurl_classes rt) (drop i k @ 0x3D # 0x22 # z)" .
qed (rule k(2))

lemma scan_skip_value:
  assumes t: "ascii_tables rt" and v: "0x22 \<notin> set v" "0x3E \<notin> set v"
    and l: "v = [] \<or> last v \<noteq> 0x3D"
  shows "matches (scan_pattern rt) (v @ 0x22 # z) = matches (scan_pattern rt) (0x22 # z)"
proof (rule scan_skip)
  fix i assume i: "i < length v"
  have q: "0x22 \<notin> set (drop i v)" using v(1) by (meson in_set_dropD)
  have "drop i v = [] \<or> last (drop i v) \<noteq> 0x3D" using l i by (auto simp: last_drop)
  from not_in_value[OF t q this]
  show "\<not> accepts (xmlurl_classes rt) (drop i v @ 0x22 # z)" .
qed (rule v(2))

lemma plain_name_facts:
  assumes "plain_name rt n"
  shows "n \<noteq> []" "0x3C \<notin> set n" "0x3E \<notin> set n" "0x3D \<notin> set n" "0x22 \<notin> set n"
    "\<not> re_space rt (hd n)"
  using assms by (cases n; auto simp: plain_name_def list_all_iff)+

lemma plain_value_facts:
  assumes "plain_value v"
  shows "0x3C \<notin> set v" "0x3E \<notin> set v" "0x22 \<notin> set v" "v = [] \<or> last v \<noteq> 0x3D"
  using assms by (auto simp: plain_value_def list_all_iff)

lemma delimiters: "delimiter 0x20" "delimiter 0x22" "delimiter 0x3D" "delimiter 0x3E"
  "delimiter 0x2F" "delimiter 0x3C"
  by (simp_all add: delimiter_def)

lemma attribute_text_body: "attribute_text a = fst a @ attribute_body (snd a)"
  by (simp add: attribute_text_def attribute_body_def)

lemma layout_facts:
  assumes "layout w" "c \<in> set w"
  shows "delimiter c" "c \<noteq> 0x3E" "c \<noteq> 0x3C" "ascii_space c" "c < 128"
  using assms by (auto simp: layout_def list_all_iff delimiter_def ascii_space_def)

lemma layout_space: "ascii_tables rt \<Longrightarrow> layout w \<Longrightarrow> c \<in> set w \<Longrightarrow> re_space rt c"
  using ascii_tables_space[of rt c] layout_facts(4,5)[of w c] by simp

lemma layout_Cons: "layout (c # w) \<Longrightarrow> layout w"
  by (simp add: layout_def)

lemma scan_skip_layout:
  assumes t: "ascii_tables rt"
  shows "layout w \<Longrightarrow> matches (scan_pattern rt) (w @ z) = matches (scan_pattern rt) z"
proof (induction w)
  case Nil
  then show ?case by simp
next
  case (Cons c w)
  from layout_facts(1,2)[OF Cons.prems, of c] have d: "delimiter c" and g: "c \<noteq> 0x3E" by simp_all
  have "matches (scan_pattern rt) ((c # w) @ z) = matches (scan_pattern rt) (w @ z)"
    using scan_skip_delimiter[OF t d g] by simp
  with Cons.IH[OF layout_Cons[OF Cons.prems]] show ?case by simp
qed

lemma scan_skip_body:
  assumes t: "ascii_tables rt" and p: "plain_attribute rt kv" and x: "fst kv \<noteq> ustr ''xmlUrl''"
  shows "matches (scan_pattern rt) (attribute_body kv @ z) = matches (scan_pattern rt) z"
proof -
  from p have n: "plain_name rt (fst kv)" and v: "plain_value (snd kv)"
    and l: "\<not> xmlurl_like rt (fst kv)"
    using x by (auto simp: plain_attribute_def)
  have "matches (scan_pattern rt) (attribute_body kv @ z) =
        matches (scan_pattern rt) (fst kv @ 0x3D # 0x22 # (snd kv @ 0x22 # z))"
    by (simp add: attribute_body_def)
  also have "\<dots> = matches (scan_pattern rt) (0x3D # 0x22 # (snd kv @ 0x22 # z))"
    by (rule scan_skip_key[OF t plain_name_facts(4)[OF n] plain_name_facts(3)[OF n] l])
  also have "\<dots> = matches (scan_pattern rt) (0x22 # (snd kv @ 0x22 # z))"
    by (rule scan_skip_delimiter[OF t delimiters(3)]) simp
  also have "\<dots> = matches (scan_pattern rt) (snd kv @ 0x22 # z)"
    by (rule scan_skip_delimiter[OF t delimiters(2)]) simp
  also have "\<dots> = matches (scan_pattern rt) (0x22 # z)"
    by (rule scan_skip_value[OF t plain_value_facts(3)[OF v] plain_value_facts(2)[OF v]
          plain_value_facts(4)[OF v]])
  also have "\<dots> = matches (scan_pattern rt) z"
    by (rule scan_skip_delimiter[OF t delimiters(2)]) simp
  finally show ?thesis .
qed

lemma spaced_facts:
  assumes "spaced a"
  shows "fst a \<noteq> []" "layout (fst a)" "0x3C \<notin> set (fst (snd a))" "0x3C \<notin> set (snd (snd a))"
  using assms by (simp_all add: spaced_def)

lemma gt_notin_attribute:
  "spaced a \<Longrightarrow> plain_attribute rt (snd a) \<Longrightarrow> 0x3E \<notin> set (attribute_text a)"
  by (auto simp: plain_attribute_def attribute_text_def spaced_def
      dest: plain_name_facts plain_value_facts layout_facts)

lemma gt_notin_attributes:
  "list_all spaced as \<Longrightarrow> list_all (plain_attribute rt) (map snd as) \<Longrightarrow>
   0x3E \<notin> set (concat (map attribute_text as))"
  by (induction as) (auto dest: gt_notin_attribute)

lemma scan_hit_xmlurl:
  assumes v: "plain_value v" and w: "0x3E \<notin> set w"
  shows "matches (scan_pattern rt) (attribute_body (ustr ''xmlUrl'', v) @ w @ 0x3E # rest) =
         Some (v, rest)"
proof -
  let ?t = "v @ 0x22 # w @ 0x3E # rest"
  have s: "attribute_body (ustr ''xmlUrl'', v) @ w @ 0x3E # rest = ustr ''xmlUrl'' @ 0x3D # 0x22 # ?t"
    by (simp add: attribute_body_def)
  have a: "accepts (xmlurl_classes rt) (ustr ''xmlUrl'' @ 0x3D # 0x22 # ?t)"
    unfolding accepts_xmlurl_classes xmlurl_letters_def
    using accepts_self[of rt "ustr ''xmlUrl''"] by (simp add: length_xmlUrl)
  obtain c t where ct: "ustr ''xmlUrl'' @ 0x3D # 0x22 # ?t = c # t"
    by (cases "ustr ''xmlUrl'' @ 0x3D # 0x22 # ?t") simp_all
  have d: "drop 8 (ustr ''xmlUrl'' @ 0x3D # 0x22 # ?t) = ?t" by (simp add: length_xmlUrl)
  have "matches url_tail ?t = Some (v, rest)"
    by (rule url_tail_matches[OF plain_value_facts(3)[OF v] w])
  with scan_hit[of rt c t] a ct d show ?thesis unfolding s by simp
qed

lemma closer_eq: "closer slash = (if slash then [0x2F] else []) @ [0x3E]"
  by (simp add: closer_def)

lemma scan_at_gt:
  assumes "ascii_tables rt"
  shows "matches (scan_pattern rt) (0x3E # rest) = None"
proof -
  have "\<not> accepts (xmlurl_classes rt) (0x3E # rest)"
    by (rule not_at_delimiter[OF assms delimiters(4)])
  then show ?thesis by (simp add: scan_pattern_def matches_classes)
qed

lemma scan_closer:
  assumes t: "ascii_tables rt"
  shows "matches (scan_pattern rt) (closer slash @ rest) = None"
proof (cases slash)
  case True
  have "matches (scan_pattern rt) (0x2F # 0x3E # rest) = matches (scan_pattern rt) (0x3E # rest)"
    by (rule scan_skip_delimiter[OF t delimiters(5)]) simp
  with scan_at_gt[OF t] True show ?thesis by (simp add: closer_def)
next
  case False
  with scan_at_gt[OF t] show ?thesis by (simp add: closer_def)
qed

lemma scan_attributes:
  assumes t: "ascii_tables rt" and w: "layout ws"
  shows "list_all spaced as \<Longrightarrow> list_all (plain_attribute rt) (map snd as) \<Longrightarrow>
     matches (scan_pattern rt) (concat (map attribute_text as) @ ws @ closer slash @ rest) =
       (case map_of (map snd as) (ustr ''xmlUrl'') of Some u \<Rightarrow> Some (u, rest) | None \<Rightarrow> None)"
proof (induction as)
  case Nil
  have "matches (scan_pattern rt) (ws @ closer slash @ rest) =
        matches (scan_pattern rt) (closer slash @ rest)"
    by (rule scan_skip_layout[OF t w])
  with scan_closer[OF t] show ?case by simp
next
  case (Cons a as)
  from Cons.prems have sa: "spaced a" and ss: "list_all spaced as"
    and p: "plain_attribute rt (snd a)" and ps: "list_all (plain_attribute rt) (map snd as)"
    by simp_all
  obtain k v where kv: "snd a = (k, v)" by (cases "snd a")
  let ?z = "concat (map attribute_text as) @ ws @ closer slash @ rest"
  have "matches (scan_pattern rt) (concat (map attribute_text (a # as)) @ ws @ closer slash @ rest) =
        matches (scan_pattern rt) (fst a @ (attribute_body (snd a) @ ?z))"
    by (simp add: attribute_text_body)
  also have "\<dots> = matches (scan_pattern rt) (attribute_body (snd a) @ ?z)"
    by (rule scan_skip_layout[OF t spaced_facts(2)[OF sa]])
  finally have e: "matches (scan_pattern rt)
        (concat (map attribute_text (a # as)) @ ws @ closer slash @ rest) =
      matches (scan_pattern rt) (attribute_body (snd a) @ ?z)" .
  show ?case
  proof (cases "k = ustr ''xmlUrl''")
    case True
    from p kv have v: "plain_value v" by (simp add: plain_attribute_def)
    let ?w = "concat (map attribute_text as) @ ws @ (if slash then [0x2F] else [])"
    have g: "0x3E \<notin> set ?w"
      using gt_notin_attributes[OF ss ps] layout_facts(2)[OF w] by auto
    have z: "?z = ?w @ 0x3E # rest" by (simp add: closer_eq)
    from scan_hit_xmlurl[OF v g, of rt rest] True kv e z
    show ?thesis by simp
  next
    case False
    with kv have x: "fst (snd a) \<noteq> ustr ''xmlUrl''" by simp
    from scan_skip_body[OF t p x, of ?z] e Cons.IH[OF ss ps] False kv
    show ?thesis by simp
  qed
qed

lemma length_outline: "length (ustr ''outline'') = 7"
  by (simp add: ustr_def)

lemma length_outline_letters [simp]: "length (outline_letters rt) = 7"
  by (simp add: outline_letters_def length_outline)

lemma outline_letter_delimiter:
  assumes "ascii_tables rt" "i < 7" "delimiter c"
  shows "\<not> (outline_letters rt ! i) c"
proof -
  have m: "ustr ''outline'' ! i \<in> set (ustr ''outline'')"
    using assms(2) by (intro nth_mem) (simp add: length_outline)
  have "outline_letters rt ! i = ignorecase_class rt (ustr ''outline'' ! i)"
    unfolding outline_letters_def using assms(2) by (intro nth_map) (simp add: length_outline)
  then show ?thesis
    using letter_not_delimiter[OF assms(1) _ assms(3), of "ustr ''outline'' ! i"] m by simp
qed

lemma opening_classes_eq: "opening_classes rt = (\<lambda>c. c = 0x3C) # outline_letters rt"
  by (simp add: opening_classes_def outline_letters_def)

lemma accepts_exact: "length ps = length n \<Longrightarrow> accepts ps (n @ z) = accepts ps n"
  by (induction ps n rule: accepts.induct) simp_all

lemma plain_name_no_space: "plain_name rt n \<Longrightarrow> c \<in> set n \<Longrightarrow> \<not> re_space rt c"
  by (auto simp: plain_name_def list_all_iff)

lemma greedy_plus_stops:
  "\<not> cls c \<Longrightarrow> matches (Greedy_plus cls # r) (c # t) = None"
  by simp

lemma greedy_plus_one:
  "cls c \<Longrightarrow> \<not> cls c' \<Longrightarrow> matches (Greedy_plus cls # r) (c # c' # t) = matches r (c' # t)"
  by simp

lemma greedy_layout:
  assumes t: "ascii_tables rt" and c: "\<not> re_space rt c"
  shows "layout w \<Longrightarrow> w \<noteq> [] \<Longrightarrow>
     matches (Greedy_plus (re_space rt) # scan_pattern rt) (w @ c # z) =
     matches (scan_pattern rt) (c # z)"
proof (induction w)
  case Nil
  then show ?case by simp
next
  case (Cons a w)
  have a: "re_space rt a" using layout_space[OF t Cons.prems(1), of a] by simp
  have lw: "layout w" using layout_Cons[OF Cons.prems(1)] .
  show ?case
  proof (cases w)
    case Nil
    with greedy_plus_one[of "re_space rt" a c] a c show ?thesis by simp
  next
    case (Cons b w')
    then have ne: "w \<noteq> []" by simp
    have ih: "matches (Greedy_plus (re_space rt) # scan_pattern rt) (w @ c # z) =
              matches (scan_pattern rt) (c # z)"
      using Cons.IH[OF lw ne] .
    have sk: "matches (scan_pattern rt) (w @ c # z) = matches (scan_pattern rt) (c # z)"
      by (rule scan_skip_layout[OF t lw])
    have "matches (Greedy_plus (re_space rt) # scan_pattern rt) ((a # w) @ c # z) =
          (case matches (Greedy_plus (re_space rt) # scan_pattern rt) (w @ c # z) of
             Some m \<Rightarrow> Some m
           | None \<Rightarrow> matches (scan_pattern rt) (w @ c # z))"
      using a by simp
    also have "\<dots> = matches (scan_pattern rt) (c # z)"
      unfolding ih sk by (simp split: option.splits)
    finally show ?thesis .
  qed
qed

lemma closer_Cons:
  "closer slash @ rest = (if slash then 0x2F else 0x3E) # (if slash then 0x3E # rest else rest)"
  by (simp add: closer_def)

lemma not_space_closer:
  assumes "ascii_tables rt"
  shows "\<not> re_space rt (if slash then 0x2F else 0x3E)"
  using ascii_tables_space[OF assms, of "0x2F"] ascii_tables_space[OF assms, of "0x3E"]
  by (simp add: ascii_space_def)

lemma greedy_no_attribute:
  assumes t: "ascii_tables rt" and w: "layout ws"
  shows "matches (Greedy_plus (re_space rt) # scan_pattern rt) (ws @ closer slash @ rest) = None"
proof (cases ws)
  case Nil
  then show ?thesis
    unfolding closer_Cons
    using greedy_plus_stops[of "re_space rt" "if slash then 0x2F else 0x3E"]
      not_space_closer[OF t, of slash] by simp
next
  case (Cons a w')
  then have ne: "ws \<noteq> []" by simp
  have "matches (Greedy_plus (re_space rt) # scan_pattern rt) (ws @ closer slash @ rest) =
        matches (scan_pattern rt) (closer slash @ rest)"
    unfolding closer_Cons by (rule greedy_layout[OF t not_space_closer[OF t] w ne])
  with scan_closer[OF t] show ?thesis by simp
qed

lemma tag_rest_delimiter:
  assumes sp: "list_all spaced as" and w: "layout ws"
  shows "\<exists>d z'. concat (map attribute_text as) @ ws @ closer slash @ rest = d # z' \<and> delimiter d"
proof (cases as)
  case Nil
  show ?thesis
  proof (cases ws)
    case Nil
    with \<open>as = []\<close> show ?thesis
      unfolding closer_Cons by (simp add: delimiters)
  next
    case (Cons a w')
    with layout_facts(1)[OF w, of a] \<open>as = []\<close> show ?thesis by simp
  qed
next
  case (Cons a as')
  with sp have s: "spaced a" by simp
  from spaced_facts(1)[OF s] obtain b w' where f: "fst a = b # w'" by (cases "fst a") simp_all
  with layout_facts(1)[OF spaced_facts(2)[OF s], of b] have "delimiter b" by simp
  with Cons f show ?thesis by (simp add: attribute_text_def)
qed

lemma start_tag_matches:
  assumes t: "ascii_tables rt"
    and n: "plain_name rt n"
    and sp: "list_all spaced as"
    and w: "layout ws"
    and ps: "outline_like rt n \<Longrightarrow> list_all (plain_attribute rt) (map snd as)"
  shows "matches (outline_pattern rt) (start_tag n as ws slash @ rest) =
     (if outline_like rt n
      then (case map_of (map snd as) (ustr ''xmlUrl'') of
              Some u \<Rightarrow> Some (u, rest) | None \<Rightarrow> None)
      else None)"
proof -
  let ?z = "concat (map attribute_text as) @ ws @ closer slash @ rest"
  have s: "start_tag n as ws slash @ rest = 0x3C # n @ ?z" by (simp add: start_tag_def)
  have m: "matches (outline_pattern rt) (start_tag n as ws slash @ rest) =
             (if accepts (outline_letters rt) (n @ ?z)
              then matches (Greedy_plus (re_space rt) # scan_pattern rt) (drop 7 (n @ ?z))
              else None)"
    unfolding outline_pattern_split s matches_classes
    by (simp add: opening_classes_eq)
  from tag_rest_delimiter[OF sp w, of slash rest]
  obtain d z' where z: "?z = d # z'" and d: "delimiter d" by blast
  consider "length n < 7" | "length n = 7" | "7 < length n" by linarith
  then show ?thesis
  proof cases
    case 1
    have "\<not> accepts (outline_letters rt) (n @ ?z)"
    proof
      assume "accepts (outline_letters rt) (n @ ?z)"
      from accepts_nth[OF this, of "length n"] 1 z
      have "(outline_letters rt ! length n) d" by (simp add: nth_append)
      with outline_letter_delimiter[OF t 1 d] show False by simp
    qed
    with 1 m show ?thesis by (simp add: outline_like_def)
  next
    case 2
    have a: "accepts (outline_letters rt) (n @ ?z) = accepts (outline_letters rt) n"
      by (rule accepts_exact) (simp add: 2)
    show ?thesis
    proof (cases "accepts (outline_letters rt) n")
      case False
      with m a show ?thesis by (simp add: outline_like_def)
    next
      case True
      with 2 have ol: "outline_like rt n" by (simp add: outline_like_def)
      from m a True 2 have m': "matches (outline_pattern rt) (start_tag n as ws slash @ rest) =
          matches (Greedy_plus (re_space rt) # scan_pattern rt) ?z" by simp
      show ?thesis
      proof (cases as)
        case Nil
        with m' ol greedy_no_attribute[OF t w, of slash rest] show ?thesis by simp
      next
        case (Cons a as')
        from sp Cons have sa: "spaced a" by simp
        from ps[OF ol] Cons have pk: "plain_name rt (fst (snd a))"
          by (simp add: plain_attribute_def)
        obtain c k' where k: "fst (snd a) = c # k'"
          using plain_name_facts(1)[OF pk] by (cases "fst (snd a)") auto
        have c: "\<not> re_space rt c" using plain_name_no_space[OF pk, of c] k by simp
        let ?t = "k' @ [0x3D, 0x22] @ snd (snd a) @ [0x22]
                  @ concat (map attribute_text as') @ ws @ closer slash @ rest"
        have zz: "?z = fst a @ c # ?t"
          using Cons k by (simp add: attribute_text_def)
        have "matches (Greedy_plus (re_space rt) # scan_pattern rt) ?z =
              matches (scan_pattern rt) (c # ?t)"
          unfolding zz
          by (rule greedy_layout[OF t c spaced_facts(2)[OF sa] spaced_facts(1)[OF sa]])
        also have "\<dots> = matches (scan_pattern rt) ?z"
          unfolding zz by (rule scan_skip_layout[OF t spaced_facts(2)[OF sa], symmetric])
        also have "\<dots> = (case map_of (map snd as) (ustr ''xmlUrl'') of
              Some u \<Rightarrow> Some (u, rest) | None \<Rightarrow> None)"
          by (rule scan_attributes[OF t w sp ps[OF ol]])
        finally show ?thesis using m' ol by simp
      qed
    qed
  next
    case 3
    then obtain c n' where dn: "drop 7 n = c # n'" by (cases "drop 7 n") simp_all
    then have "c \<in> set (drop 7 n)" by simp
    then have "c \<in> set n" by (rule in_set_dropD)
    then have c: "\<not> re_space rt c" using plain_name_no_space[OF n] by simp
    have "drop 7 (n @ ?z) = c # n' @ ?z" using 3 dn by simp
    with m 3 greedy_plus_stops[of "re_space rt" c] c show ?thesis
      by (simp add: outline_like_def)
  qed
qed

lemma lt_delimiter_miss:
  assumes "ascii_tables rt" "delimiter d"
  shows "matches (outline_pattern rt) (0x3C # d # z) = None"
proof -
  have "\<not> accepts (outline_letters rt) (d # z)"
  proof
    assume "accepts (outline_letters rt) (d # z)"
    from accepts_nth[OF this, of 0] have "(outline_letters rt ! 0) d" by simp
    with outline_letter_delimiter[OF assms(1) _ assms(2), of 0] show False by simp
  qed
  then show ?thesis
    unfolding outline_pattern_split matches_classes
    by (simp add: opening_classes_eq)
qed

lemma end_tag_matches:
  assumes "ascii_tables rt"
  shows "matches (outline_pattern rt) (end_tag n ws @ rest) = None"
  using lt_delimiter_miss[OF assms delimiters(5)] by (simp add: end_tag_def)

lemma not_at_other:
  "c \<noteq> 0x3C \<Longrightarrow> matches (outline_pattern rt) (c # t) = None"
  unfolding outline_pattern_split matches_classes by (simp add: opening_classes_eq)

lemma rejects_accepts: "rejects ps s \<Longrightarrow> \<not> accepts ps (s @ rest)"
  by (induction ps s rule: rejects.induct) auto

lemma opening_needed:
  assumes "matches (outline_pattern rt) (0x3C # s) = Some m"
  shows "accepts (outline_letters rt @ [re_space rt]) s"
proof -
  from assms have a: "accepts (outline_letters rt) s"
    and g: "matches (Greedy_plus (re_space rt) # scan_pattern rt) (drop 7 s) = Some m"
    unfolding outline_pattern_split matches_classes
    by (simp_all add: opening_classes_eq split: if_splits)
  from g obtain c cs where d: "drop 7 s = c # cs" by (cases "drop 7 s") simp_all
  with g have "re_space rt c" by (simp split: if_splits)
  with a d show ?thesis by (simp add: accepts_append)
qed

lemma inert_miss:
  "inert rt s \<Longrightarrow> i < length s \<Longrightarrow> matches (outline_pattern rt) (drop i s @ rest) = None"
proof (induction s arbitrary: i)
  case Nil
  then show ?case by simp
next
  case (Cons c cs)
  show ?case
  proof (cases i)
    case 0
    show ?thesis
    proof (cases "c = 0x3C")
      case False
      with 0 not_at_other[OF False] show ?thesis by simp
    next
      case True
      with Cons.prems(1) have "rejects (outline_letters rt @ [re_space rt]) cs" by simp
      from rejects_accepts[OF this]
      have n: "\<not> accepts (outline_letters rt @ [re_space rt]) (cs @ rest)" .
      show ?thesis
      proof (cases "matches (outline_pattern rt) (0x3C # cs @ rest)")
        case None
        with True 0 show ?thesis by simp
      next
        case (Some m)
        from opening_needed[OF this] n show ?thesis by simp
      qed
    qed
  next
    case (Suc j)
    with Cons.prems have "inert rt cs" and "j < length cs" by simp_all
    from Cons.IH[OF this] Suc show ?thesis by simp
  qed
qed

lemma search_hit: "matches pat s = Some (g, r) \<Longrightarrow> search pat s = Some (0, g, r)"
  by (cases s) simp_all

lemma search_miss:
  "(\<And>i. i < length w \<Longrightarrow> matches pat (drop i w @ rest) = None) \<Longrightarrow>
   search pat (w @ rest) =
     (case search pat rest of None \<Rightarrow> None | Some (i, g, r) \<Rightarrow> Some (i + length w, g, r))"
proof (induction w)
  case Nil
  then show ?case by (simp split: option.splits)
next
  case (Cons c w)
  from Cons.prems[of 0] have h: "matches pat (c # w @ rest) = None" by simp
  have t: "\<And>i. i < length w \<Longrightarrow> matches pat (drop i w @ rest) = None"
    using Cons.prems[of "Suc _"] by simp
  show ?case using h Cons.IH[OF t] by (simp split: option.splits)
qed

lemma group1_finditer_pos:
  "map group1 (finditer pat pos s) = map group1 (finditer pat pos' s)"
proof (induction pat pos s arbitrary: pos' rule: finditer.induct)
  case (1 pat pos s)
  show ?case
  proof (cases "search pat s")
    case None
    then show ?thesis by (simp add: finditer.simps)
  next
    case (Some x)
    obtain i g r where x: "x = (i, g, r)" by (cases x)
    show ?thesis
    proof (cases "length r < length s")
      case True
      from "1.IH"[OF Some x[symmetric] refl True]
      have "map group1 (finditer pat (pos + (length s - length r)) r) =
            map group1 (finditer pat (pos' + (length s - length r)) r)" .
      with Some x True show ?thesis
        by (subst finditer.simps, subst (2) finditer.simps) simp
    next
      case False
      with Some x show ?thesis
        by (subst finditer.simps, subst (2) finditer.simps) simp
    qed
  qed
qed

lemma outline_search_progress:
  "search (outline_pattern rt) s = Some (i, g, r) \<Longrightarrow> length r < length s"
proof -
  assume a: "search (outline_pattern rt) s = Some (i, g, r)"
  have "\<forall>s g rest. matches (outline_pattern rt) s = Some (g, rest) \<longrightarrow> length rest < length s"
    using outline_pattern_nonempty by blast
  from search_progress[OF this a] show ?thesis by simp
qed

lemma captured_unfold:
  "captured rt s =
     (case search (outline_pattern rt) s of
        None \<Rightarrow> []
      | Some (i, g, r) \<Rightarrow> g # captured rt r)"
proof (cases "search (outline_pattern rt) s")
  case None
  then show ?thesis by (simp add: captured_def finditer.simps)
next
  case (Some x)
  obtain i g r where x: "x = (i, g, r)" by (cases x)
  from outline_search_progress Some x have lt: "length r < length s" by blast
  have "map group1 (finditer (outline_pattern rt) (0 + (length s - length r)) r) = captured rt r"
    unfolding captured_def by (rule group1_finditer_pos)
  with Some x lt show ?thesis
    unfolding captured_def by (subst finditer.simps) simp
qed

lemma captured_hit:
  "matches (outline_pattern rt) s = Some (g, r) \<Longrightarrow> captured rt s = g # captured rt r"
  by (subst captured_unfold) (simp add: search_hit)

lemma captured_miss:
  assumes "\<And>i. i < length w \<Longrightarrow> matches (outline_pattern rt) (drop i w @ rest) = None"
  shows "captured rt (w @ rest) = captured rt rest"
  by (subst captured_unfold, subst (2) captured_unfold)
     (simp add: search_miss[OF assms] split: option.splits)

lemma miss_behind_lt:
  assumes "0x3C \<notin> set w" "0 < i" "i < length (0x3C # w)"
  shows "matches (outline_pattern rt) (drop i (0x3C # w) @ rest) = None"
proof -
  from assms(2) obtain j where i: "i = Suc j" by (cases i) simp_all
  with assms(3) have j: "j < length w" by simp
  then obtain c t where d: "drop j w = c # t" by (cases "drop j w") simp_all
  then have "c \<in> set (drop j w)" by simp
  then have "c \<in> set w" by (rule in_set_dropD)
  with assms(1) have "c \<noteq> 0x3C" by auto
  from not_at_other[OF this] i d show ?thesis by simp
qed

lemma captured_chars:
  assumes "inert rt s"
  shows "captured rt (s @ rest) = captured rt rest"
  by (rule captured_miss) (rule inert_miss[OF assms])

lemma lt_notin_attributes:
  "list_all spaced as \<Longrightarrow> 0x3C \<notin> set (concat (map attribute_text as))"
  by (induction as) (auto simp: attribute_text_def dest: spaced_facts layout_facts)

lemma captured_start_tag:
  assumes t: "ascii_tables rt" and n: "plain_name rt n" and sp: "list_all spaced as"
    and w: "layout ws"
    and ps: "outline_like rt n \<Longrightarrow> list_all (plain_attribute rt) (map snd as)"
  shows "captured rt (start_tag n as ws slash @ rest) =
           tag_urls rt (Element n (map snd as) kids) @ captured rt rest"
proof (cases "matches (outline_pattern rt) (start_tag n as ws slash @ rest)")
  case None
  have sm: "matches (outline_pattern rt) (start_tag n as ws slash @ rest) =
     (if outline_like rt n
      then (case map_of (map snd as) (ustr ''xmlUrl'') of
              Some u \<Rightarrow> Some (u, rest) | None \<Rightarrow> None)
      else None)"
    using t n sp w ps by (rule start_tag_matches)
  define x where "x = n @ concat (map attribute_text as) @ ws @ closer slash"
  have x: "start_tag n as ws slash = 0x3C # x" by (simp add: x_def start_tag_def)
  have lt: "0x3C \<notin> set x"
    using plain_name_facts(2)[OF n] lt_notin_attributes[OF sp] layout_facts(3)[OF w]
    by (auto simp: x_def closer_def)
  have "captured rt (start_tag n as ws slash @ rest) = captured rt rest"
  proof (rule captured_miss)
    fix i assume i: "i < length (start_tag n as ws slash)"
    show "matches (outline_pattern rt) (drop i (start_tag n as ws slash) @ rest) = None"
    proof (cases "i = 0")
      case True
      with None show ?thesis by simp
    next
      case False
      with miss_behind_lt[OF lt, of i rt rest] i x show ?thesis by simp
    qed
  qed
  moreover from None sm have "tag_urls rt (Element n (map snd as) kids) = []"
    by (auto simp: tag_urls_def split: if_splits option.splits)
  ultimately show ?thesis by simp
next
  case (Some y)
  have sm: "matches (outline_pattern rt) (start_tag n as ws slash @ rest) =
     (if outline_like rt n
      then (case map_of (map snd as) (ustr ''xmlUrl'') of
              Some u \<Rightarrow> Some (u, rest) | None \<Rightarrow> None)
      else None)"
    using t n sp w ps by (rule start_tag_matches)
  obtain g r where y: "y = (g, r)" by (cases y)
  from Some y sm have r: "r = rest" by (auto split: if_splits option.splits)
  from Some y r sm have "tag_urls rt (Element n (map snd as) kids) = [g]"
    by (auto simp: tag_urls_def split: if_splits option.splits)
  with captured_hit[of rt "start_tag n as ws slash @ rest" g r] Some y r show ?thesis by simp
qed

lemma captured_end_tag:
  assumes t: "ascii_tables rt" and n: "plain_name rt n" and w: "layout ws"
  shows "captured rt (end_tag n ws @ rest) = captured rt rest"
proof (rule captured_miss)
  fix i assume i: "i < length (end_tag n ws)"
  have e: "end_tag n ws = 0x3C # (0x2F # n @ ws @ [0x3E])" by (simp add: end_tag_def)
  have lt: "0x3C \<notin> set (0x2F # n @ ws @ [0x3E])"
    using plain_name_facts(2)[OF n] layout_facts(3)[OF w] by auto
  show "matches (outline_pattern rt) (drop i (end_tag n ws) @ rest) = None"
  proof (cases "i = 0")
    case True
    with end_tag_matches[OF t] show ?thesis by simp
  next
    case False
    with miss_behind_lt[OF lt, of i rt rest] i e show ?thesis by simp
  qed
qed

lemma captured_children:
  "(\<And>c rest. c \<in> set cs \<Longrightarrow> captured rt (text_of c @ rest) = U c @ captured rt rest) \<Longrightarrow>
   captured rt (concat (map text_of cs) @ r) = concat (map U cs) @ captured rt r"
  by (induction cs) simp_all

lemma tag_urls_forest:
  "concat (map (tag_urls rt) (concat (map iter (concat (map forest cs))))) =
     concat (map (\<lambda>c. concat (map (tag_urls rt) (concat (map iter (forest c))))) cs)"
  by (induction cs) simp_all

lemma captured_written:
  assumes t: "ascii_tables rt"
  shows "plain_written rt w \<Longrightarrow>
         captured rt (text_of w @ rest) =
           concat (map (tag_urls rt) (concat (map iter (forest w)))) @ captured rt rest"
proof (induction w arbitrary: rest)
  case (Chars s)
  then show ?case using captured_chars[of rt s rest] by simp
next
  case (Node n as ws slash cs ws')
  let ?e = "Element n (map snd as) (concat (map forest cs))"
  let ?U = "\<lambda>c. concat (map (tag_urls rt) (concat (map iter (forest c))))"
  from Node.prems have pn: "plain_name rt n" and sp: "list_all spaced as"
    and lw: "layout ws" and lw': "layout ws'"
    and pa: "outline_like rt n \<Longrightarrow> list_all (plain_attribute rt) (map snd as)"
    and pc: "\<And>c. c \<in> set cs \<Longrightarrow> plain_written rt c" by auto
  have ch: "\<And>c rest. c \<in> set cs \<Longrightarrow> captured rt (text_of c @ rest) = ?U c @ captured rt rest"
    using Node.IH pc by blast
  have f: "concat (map (tag_urls rt) (concat (map iter (forest (Node n as ws slash cs ws'))))) =
           tag_urls rt ?e @ concat (map ?U cs)"
    by (simp add: tag_urls_forest)
  show ?case
  proof (cases "slash \<and> cs = []")
    case True
    have "captured rt (text_of (Node n as ws slash cs ws') @ rest) =
          captured rt (start_tag n as ws True @ rest)"
      using True by simp
    also have "\<dots> = tag_urls rt ?e @ captured rt rest"
      by (rule captured_start_tag[OF t pn sp lw pa])
    finally show ?thesis unfolding f using True by simp
  next
    case False
    have "captured rt (text_of (Node n as ws slash cs ws') @ rest) =
          captured rt (start_tag n as ws False @ (concat (map text_of cs) @ (end_tag n ws' @ rest)))"
      using False by auto
    also have "\<dots> = tag_urls rt ?e @ captured rt (concat (map text_of cs) @ (end_tag n ws' @ rest))"
      by (rule captured_start_tag[OF t pn sp lw pa])
    also have "captured rt (concat (map text_of cs) @ (end_tag n ws' @ rest)) =
          concat (map ?U cs) @ captured rt (end_tag n ws' @ rest)"
      by (rule captured_children[OF ch])
    also have "captured rt (end_tag n ws' @ rest) = captured rt rest"
      by (rule captured_end_tag[OF t pn lw'])
    finally show ?thesis unfolding f by simp
  qed
qed

lemma captured_Nil: "captured rt [] = []"
  by (subst captured_unfold) (simp add: outline_pattern_split opening_classes_eq)

lemma captured_document:
  assumes t: "ascii_tables rt" and p: "list_all (plain_written rt) items"
  shows "captured rt (concat (map text_of items)) =
           concat (map (tag_urls rt) (concat (map iter (concat (map forest items)))))"
proof -
  have "\<And>c rest. c \<in> set items \<Longrightarrow>
          captured rt (text_of c @ rest) =
            concat (map (tag_urls rt) (concat (map iter (forest c)))) @ captured rt rest"
    using captured_written[OF t] p by (simp add: list_all_iff)
  from captured_children[of items rt
      "\<lambda>c. concat (map (tag_urls rt) (concat (map iter (forest c))))" "[]", OF this]
  show ?thesis by (simp add: captured_Nil tag_urls_forest)
qed

lemma findall_outline_iter:
  "x \<in> set (findall_outline root) \<Longrightarrow> x \<in> set (iter root) \<and> tag x = ustr ''outline''"
  by (cases root) (auto simp: findall_outline_def)

lemma outline_like_outline: "outline_like rt (ustr ''outline'')"
  unfolding outline_like_def outline_letters_def
  using accepts_self[of rt "ustr ''outline''" "[]"] by (simp add: length_outline)

lemma feed_tag_urls:
  assumes "tag x = ustr ''outline''" "get x (ustr ''xmlUrl'') = Some u"
  shows "tag_urls rt x = [u]"
  using assms outline_like_outline[of rt] by (simp add: tag_urls_def get_def)

lemma tag_urls_element:
  assumes "u \<in> set (tag_urls rt x)"
  shows "outline_like rt (tag x) \<and> get x (ustr ''xmlUrl'') = Some u"
proof (cases "outline_like rt (tag x)")
  case False
  with assms show ?thesis by (simp add: tag_urls_def)
next
  case True
  show ?thesis
  proof (cases "map_of (attrib x) (ustr ''xmlUrl'')")
    case None
    with assms True show ?thesis by (simp add: tag_urls_def)
  next
    case (Some v)
    with assms True show ?thesis by (simp add: tag_urls_def get_def)
  qed
qed

lemma for_each_match_pairs:
  "for_each (match_step rt cat) acc ms = (feeds, None) \<Longrightarrow>
   map url_category feeds =
     map url_category acc @ map (\<lambda>g. (g, cat)) (filter (\<lambda>g. g \<noteq> []) (map group1 ms))"
proof (induction ms arbitrary: acc)
  case Nil
  then show ?case by simp
next
  case (Cons a ms)
  show ?case
  proof (cases "match_step rt cat acc a")
    case (Inl e)
    with Cons.prems show ?thesis by simp
  next
    case (Inr s')
    with Cons.prems have "for_each (match_step rt cat) s' ms = (feeds, None)" by simp
    from Cons.IH[OF this]
    have ih: "map url_category feeds =
        map url_category s' @ map (\<lambda>g. (g, cat)) (filter (\<lambda>g. g \<noteq> []) (map group1 ms))" .
    show ?thesis
    proof (cases "group1 a \<noteq> []")
      case False
      with Inr have "s' = acc" by (simp add: match_step_def)
      with ih False show ?thesis by simp
    next
      case True
      with Inr obtain f where f: "match_record rt cat a = Inr f" and s: "s' = acc @ [f]"
        by (auto simp: match_step_def split: sum.splits)
      from match_record_fields(1,2)[OF f] have "url_category f = (group1 a, cat)"
        by (simp add: url_category_def)
      with ih s True show ?thesis by simp
    qed
  qed
qed

lemma fallback_scan_pairs:
  assumes "snd (fallback_scan rt cat s) = None"
  shows "map url_category (fst (fallback_scan rt cat s)) =
     map (\<lambda>g. (g, cat)) (filter (\<lambda>g. g \<noteq> []) (captured rt s))"
proof -
  obtain feeds where "fallback_scan rt cat s = (feeds, None)"
    using assms by (cases "fallback_scan rt cat s") simp
  then have f: "for_each (match_step rt cat) [] (finditer (outline_pattern rt) 0 s) = (feeds, None)"
    and e: "fst (fallback_scan rt cat s) = feeds"
    by (simp_all add: fallback_scan_def)
  from for_each_match_pairs[OF f] e show ?thesis by (simp add: captured_def)
qed

lemma fallback_scan_captured:
  assumes "f \<in> set (fst (fallback_scan rt cat s))"
  shows "url f \<in> set (captured rt s) \<and> url f \<noteq> []"
proof -
  obtain feeds x where p: "fallback_scan rt cat s = (feeds, x)" by (cases "fallback_scan rt cat s")
  with assms have "f \<in> set feeds" by simp
  from for_each_match_step[OF p[unfolded fallback_scan_def] this]
  obtain m where m: "m \<in> set (finditer (outline_pattern rt) 0 s)" "group1 m \<noteq> []"
    "match_record rt cat m = Inr f" by auto
  from match_record_fields(1)[OF m(3)] m(1,2) show ?thesis by (auto simp: captured_def)
qed

lemma primary_walk_pairs:
  assumes "p \<in> set (map url_category (fst (primary_walk rt cat root)))"
  shows "\<exists>x u. x \<in> set (findall_outline root) \<and> get x (ustr ''xmlUrl'') = Some u \<and> u \<noteq> []
               \<and> p = (u, cat)"
proof -
  obtain feeds e where w: "primary_walk rt cat root = (feeds, e)"
    by (cases "primary_walk rt cat root")
  with assms obtain f where f: "f \<in> set feeds" and p: "p = url_category f" by auto
  from for_each_outline_step[OF w[unfolded primary_walk_def] f]
  obtain x u where x: "x \<in> set (findall_outline root)" and u: "get x (ustr ''xmlUrl'') = Some u"
    and ne: "u \<noteq> []" and r: "outline_record rt cat x u = Inr f" by auto
  from outline_record_fields(1,2)[OF r] p have "p = (u, cat)" by (simp add: url_category_def)
  with x u ne show ?thesis by blast
qed

lemma html_unescape_total:
  assumes "\<And>s. \<exists>t. charref_sub rt s = Inr t"
  shows "\<exists>t. html_unescape rt s = Inr t"
  using assms[of s] by (simp add: html_unescape_def)

lemma match_record_total:
  assumes "\<And>s. \<exists>t. charref_sub rt s = Inr t"
  shows "\<exists>f. match_record rt cat m = Inr f"
proof -
  have h: "\<And>s. \<exists>t. (if s \<noteq> [] then html_unescape rt s else Inr []) = Inr t"
    using html_unescape_total[OF assms] by simp
  let ?t = "if (case attribute_search (ustr ''text'') (group0 m) of Some v \<Rightarrow> v | None \<Rightarrow> []) = []
            then (case attribute_search (ustr ''title'') (group0 m) of
                    Some v \<Rightarrow> v
                  | None \<Rightarrow> (case attribute_search (ustr ''text'') (group0 m) of
                               Some v \<Rightarrow> v | None \<Rightarrow> []))
            else (case attribute_search (ustr ''text'') (group0 m) of Some v \<Rightarrow> v | None \<Rightarrow> [])"
  let ?d = "case attribute_search (ustr ''description'') (group0 m) of Some v \<Rightarrow> v | None \<Rightarrow> []"
  from h[of ?t] obtain t1 where t1: "(if ?t \<noteq> [] then html_unescape rt ?t else Inr []) = Inr t1"
    by blast
  from h[of ?d] obtain d1 where d1: "(if ?d \<noteq> [] then html_unescape rt ?d else Inr []) = Inr d1"
    by blast
  have "match_record rt cat m =
     (case (if ?t \<noteq> [] then html_unescape rt ?t else Inr []) of
        Inl e \<Rightarrow> Inl e
      | Inr title2 \<Rightarrow>
          (case (if ?d \<noteq> [] then html_unescape rt ?d else Inr []) of
             Inl e \<Rightarrow> Inl e
           | Inr description1 \<Rightarrow>
               Inr \<lparr>title = title2, description = description1, url = group1 m,
                    feed_type = (case attribute_search (ustr ''type'') (group0 m) of
                                   Some v \<Rightarrow> v | None \<Rightarrow> ustr ''rss''),
                    category = cat\<rparr>))"
    by (simp add: match_record_def Let_def)
  then show ?thesis by (simp only: t1 d1 sum.case) blast
qed

lemma for_each_total:
  assumes "\<And>s x. \<exists>s'. step s x = Inr s'"
  shows "snd (for_each step acc xs) = None"
proof (induction xs arbitrary: acc)
  case Nil
  then show ?case by simp
next
  case (Cons x xs)
  from assms[of acc x] obtain s' where "step acc x = Inr s'" by blast
  with Cons.IH[of s'] show ?case by simp
qed

lemma fallback_scan_total:
  assumes "\<And>s. \<exists>t. charref_sub rt s = Inr t"
  shows "snd (fallback_scan rt cat content) = None"
  unfolding fallback_scan_def
proof (rule for_each_total)
  fix s x
  from match_record_total[OF assms, of cat x] obtain f where "match_record rt cat x = Inr f"
    by blast
  then show "\<exists>s'. match_step rt cat s x = Inr s'" by (simp add: match_step_def)
qed

section \<open>The examples evaluated\<close>

lemma scenario1_parsed:
  "parse_opml_file scenario1_runtime example_path =
     Inr ([\<lparr>title = ustr ''Tech'', description = [], url = ustr ''http://a.com/rss'',
            feed_type = ustr ''rss'', category = ustr ''news''\<rparr>], [])"
  by (simp add: example_defs model_defs)

lemma scenario1_walked:
  "primary_walk scenario1_runtime (ustr ''news'') scenario1_tree =
     ([\<lparr>title = ustr ''Tech'', description = [], url = ustr ''http://a.com/rss'',
            feed_type = ustr ''rss'', category = ustr ''news''\<rparr>], None)"
  by (simp add: example_defs model_defs)

lemma scenario1_scanned:
  "fallback_scan scenario1_runtime (ustr ''news'') scenario1_doc =
     ([\<lparr>title = ustr ''Tech'', description = [], url = ustr ''http://a.com/rss'',
            feed_type = ustr ''rss'', category = ustr ''news''\<rparr>], None)"
  by (simp add: example_defs model_defs finditer.simps)

lemma unclosed_normalized:
  "fix_xml_encoding ascii_digit unclosed_doc =
     ustr ''<opml><body><outline text='' @ dq @ ustr ''Q&amp;A'' @ dq @ ustr '' xmlUrl='' @ dq
     @ ustr ''http://a.com/rss?x=1&amp;y=2'' @ dq @ ustr ''>''"
  by (simp add: example_defs model_defs)

lemma unclosed_scanned:
  "fallback_scan unclosed_runtime (ustr ''news'') unclosed_doc =
     ([\<lparr>title = ustr ''Q&A'', description = [], url = ustr ''http://a.com/rss?x=1&y=2'',
       feed_type = ustr ''rss'', category = ustr ''news''\<rparr>], None)"
  by (simp add: example_defs model_defs finditer.simps)

lemma unclosed_normalized_scanned:
  "map url (fst (fallback_scan unclosed_runtime (ustr ''news'')
                   (fix_xml_encoding ascii_digit unclosed_doc))) =
     [ustr ''http://a.com/rss?x=1&amp;y=2'']"
  unfolding unclosed_normalized
  by (simp add: example_defs model_defs finditer.simps)

lemma unclosed_fields:
  "read_file unclosed_runtime example_path = Inr unclosed_doc"
  "path_stem unclosed_runtime example_path = ustr ''news''"
  "re_digit unclosed_runtime = ascii_digit"
  "et_fromstring unclosed_runtime s = Inl (ParseError (ustr ''no element found''))"
  "print_raises unclosed_runtime line = None"
  by (simp_all add: unclosed_runtime_def example_runtime_def)

lemma scenario5_match:
  "finditer (outline_pattern scenario1_runtime) 0 scenario5_tag =
     [\<lparr>m_start = 0, m_end = 61, group0 = scenario5_tag, group1 = ustr ''http://c.com''\<rparr>]"
  by (simp add: example_defs model_defs finditer.simps)

lemma scenario5_searches:
  "attribute_search (ustr ''text'') scenario5_tag = Some []"
  "attribute_search (ustr ''title'') scenario5_tag = Some (ustr ''Fallback Name'')"
  "attribute_search (ustr ''description'') scenario5_tag = None"
  "attribute_search (ustr ''type'') scenario5_tag = None"
  by (simp_all add: example_defs model_defs)

lemma scenario5_gets:
  "get scenario5_outline (ustr ''text'') = Some []"
  "get scenario5_outline (ustr ''title'') = Some (ustr ''Fallback Name'')"
  "get scenario5_outline (ustr ''xmlUrl'') = Some (ustr ''http://c.com'')"
  by (simp_all add: example_defs model_defs)

lemma empty_type_match:
  "finditer (outline_pattern scenario1_runtime) 0 empty_type_tag =
     [\<lparr>m_start = 0, m_end = 39, group0 = empty_type_tag, group1 = ustr ''http://d.com''\<rparr>]"
  by (simp add: example_defs model_defs finditer.simps)

lemma empty_type_facts:
  "attribute_search (ustr ''type'') empty_type_tag = Some []"
  "get empty_type_outline (ustr ''type'') = Some []"
  "get empty_type_outline (ustr ''xmlUrl'') = Some (ustr ''http://d.com'')"
  by (simp_all add: example_defs model_defs)

lemma hyphen_type_scanned:
  "fallback_scan hyphen_type_runtime (ustr ''news'') hyphen_type_doc =
     ([\<lparr>title = [], description = [], url = ustr ''http://d.com'',
        feed_type = ustr ''atom'', category = ustr ''news''\<rparr>], None)"
  by (simp add: example_defs model_defs finditer.simps)

lemma spaced_type_scanned:
  "fallback_scan spaced_type_runtime (ustr ''news'') spaced_type_doc =
     ([\<lparr>title = [], description = [], url = ustr ''http://d.com'',
        feed_type = ustr ''rss'', category = ustr ''news''\<rparr>], None)"
  by (simp add: example_defs model_defs finditer.simps)

lemma other_url_scanned:
  "fallback_scan other_url_runtime (ustr ''news'') other_url_doc =
     ([\<lparr>title = ustr ''x'', description = [], url = ustr ''http://h.com'',
        feed_type = ustr ''rss'', category = ustr ''news''\<rparr>], None)"
  by (simp add: example_defs model_defs finditer.simps)

lemma quoted_name_scanned:
  "fallback_scan quoted_name_runtime (ustr ''news'') quoted_name_doc =
     ([\<lparr>title = ustr ''xmlUrl='', description = [], url = ustr '' xmlUrl='',
        feed_type = ustr ''rss'', category = ustr ''news''\<rparr>], None)"
  by (simp add: example_defs model_defs finditer.simps)

lemma unclosed_like_fields:
  "read_file hyphen_type_runtime p = Inr hyphen_type_doc"
  "read_file spaced_type_runtime p = Inr spaced_type_doc"
  "read_file other_url_runtime p = Inr other_url_doc"
  "read_file quoted_name_runtime p = Inr quoted_name_doc"
  "et_fromstring hyphen_type_runtime s = Inl (ParseError (ustr ''no element found''))"
  "et_fromstring spaced_type_runtime s = Inl (ParseError (ustr ''no element found''))"
  "et_fromstring other_url_runtime s = Inl (ParseError (ustr ''no element found''))"
  "et_fromstring quoted_name_runtime s = Inl (ParseError (ustr ''no element found''))"
  "path_stem hyphen_type_runtime p = ustr ''news''"
  "path_stem spaced_type_runtime p = ustr ''news''"
  "path_stem other_url_runtime p = ustr ''news''"
  "path_stem quoted_name_runtime p = ustr ''news''"
  "print_raises hyphen_type_runtime line = None"
  "print_raises spaced_type_runtime line = None"
  "print_raises other_url_runtime line = None"
  "print_raises quoted_name_runtime line = None"
  by (simp_all add: hyphen_type_runtime_def spaced_type_runtime_def other_url_runtime_def
      quoted_name_runtime_def example_runtime_def)

lemma parse_error_path:
  assumes "read_file rt file_path = Inr raw"
    and "et_fromstring rt (fix_xml_encoding (re_digit rt) raw) = Inl (ParseError msg)"
    and "print_raises rt (Error_parsing file_path (ParseError msg)) = None"
    and "fallback_scan rt (path_stem rt file_path) raw = (found, None)"
  shows "parse_opml_file rt file_path = Inr (found, [Error_parsing file_path (ParseError msg)])"
  using assms
  by (simp add: parse_opml_file_def primary_path_def parse_opml_file_fallback_def print_line_def)

lemma unclosed_parsed:
  "parse_opml_file unclosed_runtime example_path =
     Inr ([\<lparr>title = ustr ''Q&A'', description = [], url = ustr ''http://a.com/rss?x=1&y=2'',
            feed_type = ustr ''rss'', category = ustr ''news''\<rparr>],
          [Error_parsing example_path (ParseError (ustr ''no element found''))])"
  using parse_error_path [of unclosed_runtime example_path unclosed_doc "ustr ''no element found''"
      "[\<lparr>title = ustr ''Q&A'', description = [], url = ustr ''http://a.com/rss?x=1&y=2'',
            feed_type = ustr ''rss'', category = ustr ''news''\<rparr>]"]
  by (simp add: unclosed_fields unclosed_scanned)

lemma other_url_parsed:
  "parse_opml_file other_url_runtime example_path =
     Inr ([\<lparr>title = ustr ''x'', description = [], url = ustr ''http://h.com'',
            feed_type = ustr ''rss'', category = ustr ''news''\<rparr>],
          [Error_parsing example_path (ParseError (ustr ''no element found''))])"
  using parse_error_path [of other_url_runtime example_path other_url_doc "ustr ''no element found''"
      "[\<lparr>title = ustr ''x'', description = [], url = ustr ''http://h.com'',
            feed_type = ustr ''rss'', category = ustr ''news''\<rparr>]"]
  by (simp add: unclosed_like_fields other_url_scanned)

lemma quoted_name_parsed:
  "parse_opml_file quoted_name_runtime example_path =
     Inr ([\<lparr>title = ustr ''xmlUrl='', description = [], url = ustr '' xmlUrl='',
            feed_type = ustr ''rss'', category = ustr ''news''\<rparr>],
          [Error_parsing example_path (ParseError (ustr ''no element found''))])"
  using parse_error_path [of quoted_name_runtime example_path quoted_name_doc
      "ustr ''no element found''"
      "[\<lparr>title = ustr ''xmlUrl='', description = [], url = ustr '' xmlUrl='',
            feed_type = ustr ''rss'', category = ustr ''news''\<rparr>]"]
  by (simp add: unclosed_like_fields quoted_name_scanned)

lemma hyphen_type_parsed:
  "parse_opml_file hyphen_type_runtime example_path =
     Inr ([\<lparr>title = [], description = [], url = ustr ''http://d.com'',
            feed_type = ustr ''atom'', category = ustr ''news''\<rparr>],
          [Error_parsing example_path (ParseError (ustr ''no element found''))])"
  using parse_error_path [of hyphen_type_runtime example_path hyphen_type_doc
      "ustr ''no element found''"
      "[\<lparr>title = [], description = [], url = ustr ''http://d.com'',
            feed_type = ustr ''atom'', category = ustr ''news''\<rparr>]"]
  by (simp add: unclosed_like_fields hyphen_type_scanned)

lemma spaced_type_parsed:
  "parse_opml_file spaced_type_runtime example_path =
     Inr ([\<lparr>title = [], description = [], url = ustr ''http://d.com'',
            feed_type = ustr ''rss'', category = ustr ''news''\<rparr>],
          [Error_parsing example_path (ParseError (ustr ''no element found''))])"
  using parse_error_path [of spaced_type_runtime example_path spaced_type_doc
      "ustr ''no element found''"
      "[\<lparr>title = [], description = [], url = ustr ''http://d.com'',
            feed_type = ustr ''rss'', category = ustr ''news''\<rparr>]"]
  by (simp add: unclosed_like_fields spaced_type_scanned)

lemma nested_matches:
  "map (\<lambda>m. (m_start m, m_end m, group1 m)) (finditer (outline_pattern scenario1_runtime) 0 nested_doc) =
     [(35, 78, ustr ''http://a.com/1''), (88, 131, ustr ''http://b.com/2'')]"
  by (simp add: example_defs model_defs finditer.simps)

lemma nested_scanned:
  "map url (fst (fallback_scan scenario1_runtime (ustr ''news'') nested_doc)) =
     [ustr ''http://a.com/1'', ustr ''http://b.com/2'']"
  by (simp add: example_defs model_defs finditer.simps)

lemma nested_found:
  "map (\<lambda>e. get e (ustr ''text'')) (findall_outline nested_tree) =
     [Some (ustr ''Folder''), Some (ustr ''A''), Some (ustr ''B'')]"
  by (simp add: example_defs model_defs)

lemma nested_walked:
  "map url (fst (primary_walk scenario1_runtime (ustr ''news'') nested_tree)) =
     [ustr ''http://a.com/1'', ustr ''http://b.com/2'']"
  by (simp add: example_defs model_defs)

lemma typography_sample_normalized:
  "fix_xml_encoding ascii_digit typography_sample =
     ustr ''Q&amp;A &amp; &amp;nbsp;&#8217;&#x2019; '' @ [0x27, 0x22] @ ustr ''... -'' @ [0x22]"
  by (simp add: example_defs model_defs)

lemma huge_reference_facts: "huge_reference \<noteq> []" "0x26 \<in> set huge_reference"
  by (simp_all add: huge_reference_def ustr_def)

lemma interrupted_walked:
  "primary_walk interrupted_runtime (ustr ''news'') interrupted_tree =
     ([\<lparr>title = ustr ''A'', description = [], url = ustr ''http://a.com/1'',
        feed_type = ustr ''rss'', category = ustr ''news''\<rparr>],
      Some (OtherException (ustr ''ValueError'')))"
  by (simp add: interrupted_tree_def interrupted_runtime_def example_runtime_def ustr_def
      model_defs huge_reference_facts)

lemma interrupted_fields:
  "read_file interrupted_runtime p = Inr interrupted_doc"
  "et_fromstring interrupted_runtime s = Inr interrupted_tree"
  "path_stem interrupted_runtime p = ustr ''news''"
  "print_raises interrupted_runtime line = None"
  by (simp_all add: interrupted_runtime_def example_runtime_def)

lemma interrupted_path:
  "primary_path interrupted_runtime example_path =
     ([\<lparr>title = ustr ''A'', description = [], url = ustr ''http://a.com/1'',
        feed_type = ustr ''rss'', category = ustr ''news''\<rparr>],
      Some (OtherException (ustr ''ValueError'')))"
  by (simp only: primary_path_def interrupted_fields sum.case interrupted_walked)

lemma undecodable_fields:
  "read_file undecodable_runtime p = Inl (OtherException (ustr ''UnicodeDecodeError''))"
  "print_raises undecodable_runtime line = None"
  by (simp_all add: undecodable_runtime_def example_runtime_def)

lemma undecodable_path:
  "primary_path undecodable_runtime example_path =
     ([], Some (OtherException (ustr ''UnicodeDecodeError'')))"
  by (simp add: primary_path_def undecodable_fields)

lemma ascii_stdout_fields:
  "read_file ascii_stdout_runtime p = Inr unclosed_doc"
  "et_fromstring ascii_stdout_runtime s = Inl (ParseError (ustr ''no element found''))"
  "print_raises ascii_stdout_runtime line = Some (OtherException (ustr ''UnicodeEncodeError''))"
  by (simp_all add: ascii_stdout_runtime_def unclosed_runtime_def example_runtime_def)

lemma listing_tables: "ascii_tables listing_runtime"
  by (simp add: ascii_tables_def listing_runtime_def example_runtime_def list_all_iff)

lemma scenario1_tables: "ascii_tables scenario1_runtime"
  by (simp add: ascii_tables_def scenario1_runtime_def example_runtime_def list_all_iff)

lemmas plain_defs =
  plain_name_def plain_value_def plain_attribute_def xmlurl_like_def outline_like_def
  outline_letters_def spaced_def layout_def ascii_space_def ascii_lower_def ignorecase_class_def

lemma listing_plain: "list_all (plain_written listing_runtime) listing_items"
  by (simp add: listing_items_def listing_root_def listing_prolog_def listing_runtime_def
      example_runtime_def ustr_def dq_def nl_def plain_defs)

lemma scenario1_plain: "list_all (plain_written scenario1_runtime) [scenario1_written]"
  by (simp add: scenario1_written_def scenario1_runtime_def example_runtime_def ustr_def
      plain_defs)

lemma scenario1_text: "concat (map text_of [scenario1_written]) = scenario1_doc"
  by (simp add: scenario1_written_def scenario1_doc_def start_tag_def end_tag_def closer_def
      attribute_text_def ustr_def dq_def)

lemma scenario1_fields:
  "read_file scenario1_runtime p = Inr scenario1_doc"
  "et_fromstring scenario1_runtime s = Inr scenario1_tree"
  "path_stem scenario1_runtime p = ustr ''news''"
  "charref_sub scenario1_runtime s = Inr s"
  by (simp_all add: scenario1_runtime_def example_runtime_def)

lemma listing_fields:
  "read_file listing_runtime p = Inr (concat (map text_of listing_items))"
  "et_fromstring listing_runtime s = Inr listing_tree"
  "path_stem listing_runtime p = ustr ''news''"
  "\<exists>t. charref_sub listing_runtime s = Inr t"
  by (simp_all add: listing_runtime_def example_runtime_def)

lemma listing_walked:
  "map url_category (fst (primary_walk listing_runtime (ustr ''news'') listing_tree)) =
     [(ustr ''http://a.com/1'', ustr ''news''), (ustr ''http://c.com/3'', ustr ''news'')]"
  by (simp add: listing_tree_def listing_runtime_def example_runtime_def ustr_def model_defs
      url_category_def)

lemma single_quoted_scanned:
  "fallback_scan single_quoted_runtime (ustr ''news'') single_quoted_doc = ([], None)"
  by (simp add: example_defs model_defs finditer.simps)

section \<open>Claims\<close>

text \<open>
  C3, as the code has it. Every exception of reading, parsing, traversal and the
  fallback is caught, and \<open>parse_opml_file\<close> returns the list built so far, possibly empty,
  and the lines it printed. The handlers report with \<^verbatim>\<open>print\<close>, and the three calls of
  lines 96, 101 and 103 stand outside every \<^verbatim>\<open>try\<close> block: an exception that reaches the
  caller is one that one of these three raised (an exception of the \<^verbatim>\<open>print\<close> of the
  fallback, line 170, is caught at line 100), and when none of the three fails
  \<open>parse_opml_file\<close> returns.
\<close>

theorem only_a_failing_print_raises:
  "(parse_opml_file rt file_path = Inl e \<longrightarrow>
      (\<exists>x. print_raises rt (Error_parsing file_path x) = Some e
         \<or> print_raises rt (Fallback_also_failed file_path x) = Some e
         \<or> print_raises rt (Error_processing file_path x) = Some e))
   \<and> ((\<forall>x. print_raises rt (Error_parsing file_path x) = None
           \<and> print_raises rt (Fallback_also_failed file_path x) = None
           \<and> print_raises rt (Error_processing file_path x) = None) \<longrightarrow>
        (\<exists>feeds out. parse_opml_file rt file_path = Inr (feeds, out)))"
proof (intro conjI impI)
  assume "parse_opml_file rt file_path = Inl e"
  then show "\<exists>x. print_raises rt (Error_parsing file_path x) = Some e
         \<or> print_raises rt (Fallback_also_failed file_path x) = Some e
         \<or> print_raises rt (Error_processing file_path x) = Some e"
    by (rule parse_opml_file_Inl)
next
  assume q: "\<forall>x. print_raises rt (Error_parsing file_path x) = None
           \<and> print_raises rt (Fallback_also_failed file_path x) = None
           \<and> print_raises rt (Error_processing file_path x) = None"
  show "\<exists>feeds out. parse_opml_file rt file_path = Inr (feeds, out)"
  proof (cases "parse_opml_file rt file_path")
    case (Inl e')
    from parse_opml_file_Inl[OF this] q show ?thesis by auto
  next
    case (Inr res)
    then show ?thesis by (cases res) simp
  qed
qed

theorem only_a_failing_print_raises_witness:
  "(\<exists>x. print_raises ascii_stdout_runtime (Error_parsing accented_path x) =
           Some (OtherException (ustr ''UnicodeEncodeError''))
       \<or> print_raises ascii_stdout_runtime (Fallback_also_failed accented_path x) =
           Some (OtherException (ustr ''UnicodeEncodeError''))
       \<or> print_raises ascii_stdout_runtime (Error_processing accented_path x) =
           Some (OtherException (ustr ''UnicodeEncodeError'')))
   \<and> (\<exists>feeds out. parse_opml_file undecodable_runtime example_path = Inr (feeds, out))"
proof -
  have a: "parse_opml_file ascii_stdout_runtime accented_path =
             Inl (OtherException (ustr ''UnicodeEncodeError''))"
    by (simp add: parse_opml_file_def primary_path_def print_line_def ascii_stdout_fields)
  from only_a_failing_print_raises [of ascii_stdout_runtime accented_path
      "OtherException (ustr ''UnicodeEncodeError'')"] a
  have b: "\<exists>x. print_raises ascii_stdout_runtime (Error_parsing accented_path x) =
           Some (OtherException (ustr ''UnicodeEncodeError''))
       \<or> print_raises ascii_stdout_runtime (Fallback_also_failed accented_path x) =
           Some (OtherException (ustr ''UnicodeEncodeError''))
       \<or> print_raises ascii_stdout_runtime (Error_processing accented_path x) =
           Some (OtherException (ustr ''UnicodeEncodeError''))"
    by blast
  from only_a_failing_print_raises [of undecodable_runtime example_path]
  have c: "\<exists>feeds out. parse_opml_file undecodable_runtime example_path = Inr (feeds, out)"
    by (simp add: undecodable_fields)
  from b c show ?thesis by blast
qed

text \<open>
  C3 as stated fails on a file that is not well-formed, named with a letter outside
  ASCII, when the standard output is an ASCII stream: the primary parse raises
  \<^verbatim>\<open>ParseError\<close>, the handler of line 95 prints the message of line 96, which holds the
  path, and the \<^verbatim>\<open>UnicodeEncodeError\<close> of that \<^verbatim>\<open>print\<close> leaves \<open>parse_opml_file\<close>.
\<close>

theorem parse_opml_file_raises_counterexample:
  "parse_opml_file ascii_stdout_runtime accented_path =
     Inl (OtherException (ustr ''UnicodeEncodeError''))"
  by (simp add: parse_opml_file_def primary_path_def print_line_def ascii_stdout_fields)

text \<open>
  C2, as the code has it. Every record emitted has a non-empty \<open>url\<close>: the records
  \<open>parse_opml_file\<close> returns, and those of each path taken alone (the walk over a tree, the
  scan of a text). In the primary path an outline whose \<^verbatim>\<open>xmlUrl\<close> is missing or empty
  appends nothing. In the fallback the test is on the text the pattern captured: a match
  whose captured text is empty appends nothing. The captured text is that between the
  first \<^verbatim>\<open>xmlUrl="\<close> of the tag, in any letter case, and the next \<^verbatim>\<open>"\<close>; in a document
  whose items are plain, each record of the scan carries the \<^verbatim>\<open>xmlUrl\<close> attribute of a
  written element with a name the pattern takes for \<^verbatim>\<open>outline\<close>.
\<close>

theorem url_required:
  "(parse_opml_file rt file_path = Inr (feeds, out) \<longrightarrow> (\<forall>f \<in> set feeds. url f \<noteq> []))
   \<and> (\<forall>f \<in> set (fst (primary_walk rt cat root)). url f \<noteq> [])
   \<and> (\<forall>f \<in> set (fst (fallback_scan rt cat content)). url f \<noteq> [])
   \<and> (\<not> truthy (get outline (ustr ''xmlUrl'')) \<longrightarrow> outline_step rt cat fs outline = Inr fs)
   \<and> (group1 m = [] \<longrightarrow> match_step rt cat fs m = Inr fs)
   \<and> (ascii_tables rt \<and> list_all (plain_written rt) items \<longrightarrow>
        (\<forall>f \<in> set (fst (fallback_scan rt cat (concat (map text_of items)))).
           \<exists>y \<in> set (concat (map iter (concat (map forest items)))).
             outline_like rt (tag y) \<and> get y (ustr ''xmlUrl'') = Some (url f) \<and> url f \<noteq> []))"
proof (intro conjI impI ballI)
  show "\<And>f. parse_opml_file rt file_path = Inr (feeds, out) \<Longrightarrow> f \<in> set feeds \<Longrightarrow> url f \<noteq> []"
    using parse_opml_file_urls by blast
  show "\<And>f. f \<in> set (fst (primary_walk rt cat root)) \<Longrightarrow> url f \<noteq> []"
    using primary_walk_urls by blast
  show "\<And>f. f \<in> set (fst (fallback_scan rt cat content)) \<Longrightarrow> url f \<noteq> []"
    using fallback_scan_urls by blast
  show "\<not> truthy (get outline (ustr ''xmlUrl'')) \<Longrightarrow> outline_step rt cat fs outline = Inr fs"
    by (simp add: outline_step_eq)
  show "group1 m = [] \<Longrightarrow> match_step rt cat fs m = Inr fs" by (simp add: match_step_def)
next
  fix f
  assume h: "ascii_tables rt \<and> list_all (plain_written rt) items"
    and f: "f \<in> set (fst (fallback_scan rt cat (concat (map text_of items))))"
  from fallback_scan_captured[OF f]
  have c: "url f \<in> set (captured rt (concat (map text_of items)))" and ne: "url f \<noteq> []"
    by simp_all
  from h have "captured rt (concat (map text_of items)) =
      concat (map (tag_urls rt) (concat (map iter (concat (map forest items)))))"
    using captured_document by blast
  with c obtain y where y: "y \<in> set (concat (map iter (concat (map forest items))))"
    and u: "url f \<in> set (tag_urls rt y)" by auto
  from tag_urls_element[OF u] y ne
  show "\<exists>y \<in> set (concat (map iter (concat (map forest items)))).
          outline_like rt (tag y) \<and> get y (ustr ''xmlUrl'') = Some (url f) \<and> url f \<noteq> []"
    by blast
qed

theorem url_required_witness:
  "parse_opml_file scenario1_runtime example_path =
     Inr ([\<lparr>title = ustr ''Tech'', description = [], url = ustr ''http://a.com/rss'',
            feed_type = ustr ''rss'', category = ustr ''news''\<rparr>], [])
   \<and> ustr ''http://a.com/rss'' \<noteq> []
   \<and> list_all (\<lambda>f. url f \<noteq> [])
        (fst (primary_walk scenario1_runtime (ustr ''news'') scenario1_tree))
   \<and> list_all (\<lambda>f. url f \<noteq> [])
        (fst (fallback_scan scenario1_runtime (ustr ''news'') scenario1_doc))
   \<and> outline_step scenario1_runtime (ustr ''news'') [] empty_url_outline = Inr []
   \<and> outline_step scenario1_runtime (ustr ''news'') [] folder_outline = Inr []
   \<and> match_step scenario1_runtime (ustr ''news'') [] empty_url_match = Inr []
   \<and> (\<exists>y \<in> set (concat (map iter (concat (map forest [scenario1_written])))).
         outline_like scenario1_runtime (tag y)
         \<and> get y (ustr ''xmlUrl'') = Some (ustr ''http://a.com/rss''))"
proof -
  note th = url_required [of scenario1_runtime example_path
      "[\<lparr>title = ustr ''Tech'', description = [], url = ustr ''http://a.com/rss'',
            feed_type = ustr ''rss'', category = ustr ''news''\<rparr>]" "[]"
      "ustr ''news''" scenario1_tree scenario1_doc _ "[]" empty_url_match "[scenario1_written]"]
  have e: "\<not> truthy (get empty_url_outline (ustr ''xmlUrl''))"
    "\<not> truthy (get folder_outline (ustr ''xmlUrl''))" "group1 empty_url_match = []"
    by (simp_all add: example_defs model_defs)
  have a: "ustr ''http://a.com/rss'' \<noteq> []"
    using th [of empty_url_outline] scenario1_parsed by simp
  have b: "list_all (\<lambda>f. url f \<noteq> [])
        (fst (primary_walk scenario1_runtime (ustr ''news'') scenario1_tree))"
    using th [of empty_url_outline] by (simp add: list_all_iff)
  have c: "list_all (\<lambda>f. url f \<noteq> [])
        (fst (fallback_scan scenario1_runtime (ustr ''news'') scenario1_doc))"
    using th [of empty_url_outline] by (simp add: list_all_iff)
  have d: "outline_step scenario1_runtime (ustr ''news'') [] empty_url_outline = Inr []"
    "match_step scenario1_runtime (ustr ''news'') [] empty_url_match = Inr []"
    using th [of empty_url_outline] e by simp_all
  have d': "outline_step scenario1_runtime (ustr ''news'') [] folder_outline = Inr []"
    using th [of folder_outline] e by simp
  have g: "\<exists>y \<in> set (concat (map iter (concat (map forest [scenario1_written])))).
         outline_like scenario1_runtime (tag y)
         \<and> get y (ustr ''xmlUrl'') = Some (ustr ''http://a.com/rss'')"
    using th [of empty_url_outline] scenario1_tables scenario1_plain
    unfolding scenario1_text scenario1_scanned by auto
  from scenario1_parsed a b c d d' g show ?thesis by blast
qed

text \<open>
  C2 as stated fails in the fallback, on two files that are not well-formed (one start
  tag, never closed). The outline of the first has no \<^verbatim>\<open>xmlUrl\<close> attribute, and the
  pattern finds \<^verbatim>\<open>xmlUrl="\<close> at the end of \<^verbatim>\<open>htmlxmlUrl="\<close>: a record with that
  attribute's value is returned. The outline of the second has an empty \<^verbatim>\<open>xmlUrl\<close>, and
  the pattern finds \<^verbatim>\<open>xmlUrl="\<close> at the end of the value of \<^verbatim>\<open>text\<close>: a record is returned
  with the text up to the next quote as its URL.
\<close>

theorem record_without_xmlurl_attribute_counterexample:
  "get other_url_outline (ustr ''xmlUrl'') = None
   \<and> parse_opml_file other_url_runtime example_path =
       Inr ([\<lparr>title = ustr ''x'', description = [], url = ustr ''http://h.com'',
              feed_type = ustr ''rss'', category = ustr ''news''\<rparr>],
            [Error_parsing example_path (ParseError (ustr ''no element found''))])
   \<and> get quoted_name_outline (ustr ''xmlUrl'') = Some []
   \<and> parse_opml_file quoted_name_runtime example_path =
       Inr ([\<lparr>title = ustr ''xmlUrl='', description = [], url = ustr '' xmlUrl='',
              feed_type = ustr ''rss'', category = ustr ''news''\<rparr>],
            [Error_parsing example_path (ParseError (ustr ''no element found''))])"
proof -
  have a: "get other_url_outline (ustr ''xmlUrl'') = None"
    "get quoted_name_outline (ustr ''xmlUrl'') = Some []"
    by (simp_all add: example_defs model_defs)
  from a other_url_parsed quoted_name_parsed show ?thesis by blast
qed

text \<open>
  C1, as the code has it. When the primary parse raises \<^verbatim>\<open>ParseError\<close>, the fallback
  opens the file again and scans the text as read: \<^verbatim>\<open>fix_xml_encoding\<close> is not applied
  on that path. Whatever the outcome (a \<^verbatim>\<open>print\<close> may fail, \<^verbatim>\<open>html.unescape\<close> may raise
  in the scan), it is that of the scan of the raw text; when nothing fails, the records
  returned are those of the scan of the raw text.
\<close>

theorem fallback_scans_text_as_read:
  assumes "read_file rt file_path = Inr raw"
    and "et_fromstring rt (fix_xml_encoding (re_digit rt) raw) = Inl (ParseError msg)"
  shows "parse_opml_file rt file_path =
     (case print_line rt (Error_parsing file_path (ParseError msg)) [] of
        Inl print_e \<Rightarrow> Inl print_e
      | Inr out \<Rightarrow>
          (case fallback_scan rt (path_stem rt file_path) raw of
             (found, None) \<Rightarrow> Inr (found, out)
           | (found, Some e) \<Rightarrow>
               (case print_line rt (Fallback_failed file_path e) out of
                  Inr out' \<Rightarrow> Inr (found, out')
                | Inl print_e \<Rightarrow>
                    (case print_line rt (Fallback_also_failed file_path print_e) out of
                       Inl print_e' \<Rightarrow> Inl print_e'
                     | Inr out' \<Rightarrow> Inr ([], out')))))
   \<and> (print_raises rt (Error_parsing file_path (ParseError msg)) = None
        \<and> snd (fallback_scan rt (path_stem rt file_path) raw) = None \<longrightarrow>
      parse_opml_file rt file_path =
        Inr (fst (fallback_scan rt (path_stem rt file_path) raw),
             [Error_parsing file_path (ParseError msg)]))"
proof -
  have p: "primary_path rt file_path = ([], Some (ParseError msg))"
    by (simp add: primary_path_def assms)
  obtain found x where s: "fallback_scan rt (path_stem rt file_path) raw = (found, x)"
    by (cases "fallback_scan rt (path_stem rt file_path) raw")
  have f: "\<And>out. parse_opml_file_fallback rt file_path out =
      (case x of
         None \<Rightarrow> Inr (found, out)
       | Some e \<Rightarrow>
           (case print_line rt (Fallback_failed file_path e) out of
              Inl print_e \<Rightarrow> Inl print_e
            | Inr out' \<Rightarrow> Inr (found, out')))"
    by (simp add: parse_opml_file_fallback_eq[OF assms(1)] s)
  show ?thesis
  proof (cases "print_line rt (Error_parsing file_path (ParseError msg)) []")
    case (Inl pe)
    then have "print_raises rt (Error_parsing file_path (ParseError msg)) \<noteq> None"
      by (auto simp: print_line_def split: option.splits)
    with Inl p show ?thesis by (simp add: parse_opml_file_def)
  next
    case (Inr out0)
    then have o: "print_raises rt (Error_parsing file_path (ParseError msg)) = None \<longrightarrow>
        out0 = [Error_parsing file_path (ParseError msg)]"
      by (auto simp: print_line_def split: option.splits)
    show ?thesis
    proof (cases x)
      case None
      with Inr p s f o show ?thesis by (simp add: parse_opml_file_def)
    next
      case (Some e)
      with Inr p s f show ?thesis
        by (simp add: parse_opml_file_def split: sum.splits)
    qed
  qed
qed

theorem fallback_scans_text_as_read_witness:
  "parse_opml_file unclosed_runtime example_path =
     Inr ([\<lparr>title = ustr ''Q&A'', description = [], url = ustr ''http://a.com/rss?x=1&y=2'',
            feed_type = ustr ''rss'', category = ustr ''news''\<rparr>],
          [Error_parsing example_path (ParseError (ustr ''no element found''))])"
proof -
  have h: "print_raises unclosed_runtime
             (Error_parsing example_path (ParseError (ustr ''no element found''))) = None
           \<and> snd (fallback_scan unclosed_runtime (path_stem unclosed_runtime example_path)
                    unclosed_doc) = None"
    by (simp add: unclosed_fields unclosed_scanned)
  from fallback_scans_text_as_read [OF unclosed_fields(1) unclosed_fields(4)] h
  have "parse_opml_file unclosed_runtime example_path =
        Inr (fst (fallback_scan unclosed_runtime (path_stem unclosed_runtime example_path)
                    unclosed_doc),
             [Error_parsing example_path (ParseError (ustr ''no element found''))])"
    by blast
  then show ?thesis by (simp add: unclosed_fields unclosed_scanned)
qed

text \<open>
  C1 as stated fails on the file \<open>unclosed_doc\<close>. The primary parse raises
  \<^verbatim>\<open>ParseError\<close>; the record returned carries the URL of the raw text, with its bare
  \<^verbatim>\<open>&\<close>, while a scan of the normalized text, which the primary parse was given, yields
  the URL with \<^verbatim>\<open>&amp;\<close>.
\<close>

theorem fallback_scans_normalized_text_counterexample:
  "parse_opml_file unclosed_runtime example_path =
     Inr (fst (fallback_scan unclosed_runtime (ustr ''news'') unclosed_doc),
          [Error_parsing example_path (ParseError (ustr ''no element found''))])
   \<and> map url (fst (fallback_scan unclosed_runtime (ustr ''news'') unclosed_doc)) =
       [ustr ''http://a.com/rss?x=1&y=2'']
   \<and> map url (fst (fallback_scan unclosed_runtime (ustr ''news'')
                     (fix_xml_encoding (re_digit unclosed_runtime) unclosed_doc))) =
       [ustr ''http://a.com/rss?x=1&amp;y=2'']
   \<and> ustr ''http://a.com/rss?x=1&y=2'' \<noteq> ustr ''http://a.com/rss?x=1&amp;y=2''"
proof -
  have a: "parse_opml_file unclosed_runtime example_path =
          Inr (fst (fallback_scan unclosed_runtime (ustr ''news'') unclosed_doc),
               [Error_parsing example_path (ParseError (ustr ''no element found''))])"
    using unclosed_parsed by (simp add: unclosed_scanned)
  have b: "map url (fst (fallback_scan unclosed_runtime (ustr ''news'') unclosed_doc)) =
       [ustr ''http://a.com/rss?x=1&y=2'']"
    by (simp add: unclosed_scanned)
  have c: "map url (fst (fallback_scan unclosed_runtime (ustr ''news'')
                (fix_xml_encoding (re_digit unclosed_runtime) unclosed_doc))) =
     [ustr ''http://a.com/rss?x=1&amp;y=2'']"
    by (simp only: unclosed_fields(3) unclosed_normalized_scanned)
  have d: "ustr ''http://a.com/rss?x=1&y=2'' \<noteq> ustr ''http://a.com/rss?x=1&amp;y=2''"
    by (simp add: ustr_def)
  from a b c d show ?thesis by blast
qed

text \<open>
  C4, as the code has it. When the \<^verbatim>\<open>try\<close> block of the primary path raises an exception
  that is not a \<^verbatim>\<open>ParseError\<close>, the handler of line 102 prints it and nothing else is
  done: the fallback is not called, and the list returned is the one the block had built.
  That list is empty when reading or parsing raised; when the walk over the tree raised,
  it holds the records of the outlines before the one that raised.
\<close>

theorem other_exception_no_fallback:
  "(primary_path rt file_path = (feeds, Some (OtherException msg)) \<longrightarrow>
      parse_opml_file rt file_path =
        (case print_line rt (Error_processing file_path (OtherException msg)) [] of
           Inl print_e \<Rightarrow> Inl print_e
         | Inr out \<Rightarrow> Inr (feeds, out)))
   \<and> (read_file rt file_path = Inl e \<longrightarrow> primary_path rt file_path = ([], Some e))
   \<and> (read_file rt file_path = Inr raw
        \<and> et_fromstring rt (fix_xml_encoding (re_digit rt) raw) = Inl e \<longrightarrow>
      primary_path rt file_path = ([], Some e))
   \<and> (read_file rt file_path = Inr raw
        \<and> et_fromstring rt (fix_xml_encoding (re_digit rt) raw) = Inr root \<longrightarrow>
      primary_path rt file_path = primary_walk rt (path_stem rt file_path) root)
   \<and> primary_walk rt cat root =
       (map projr (takeWhile (\<lambda>y. \<not> isl y)
          (map (\<lambda>outline. outline_record rt cat outline (get_default outline (ustr ''xmlUrl'') []))
               (filter (\<lambda>outline. truthy (get outline (ustr ''xmlUrl''))) (findall_outline root)))),
        (case dropWhile (\<lambda>y. \<not> isl y)
          (map (\<lambda>outline. outline_record rt cat outline (get_default outline (ustr ''xmlUrl'') []))
               (filter (\<lambda>outline. truthy (get outline (ustr ''xmlUrl''))) (findall_outline root))) of
           [] \<Rightarrow> None
         | y # ys \<Rightarrow> Some (projl y)))"
proof (intro conjI impI)
  assume "primary_path rt file_path = (feeds, Some (OtherException msg))"
  then show "parse_opml_file rt file_path =
        (case print_line rt (Error_processing file_path (OtherException msg)) [] of
           Inl print_e \<Rightarrow> Inl print_e
         | Inr out \<Rightarrow> Inr (feeds, out))"
    by (simp add: parse_opml_file_def)
next
  assume "read_file rt file_path = Inl e"
  then show "primary_path rt file_path = ([], Some e)" by (simp add: primary_path_def)
next
  assume "read_file rt file_path = Inr raw
        \<and> et_fromstring rt (fix_xml_encoding (re_digit rt) raw) = Inl e"
  then show "primary_path rt file_path = ([], Some e)" by (simp add: primary_path_def)
next
  assume "read_file rt file_path = Inr raw
        \<and> et_fromstring rt (fix_xml_encoding (re_digit rt) raw) = Inr root"
  then show "primary_path rt file_path = primary_walk rt (path_stem rt file_path) root"
    by (simp add: primary_path_def)
next
  show "primary_walk rt cat root =
       (map projr (takeWhile (\<lambda>y. \<not> isl y)
          (map (\<lambda>outline. outline_record rt cat outline (get_default outline (ustr ''xmlUrl'') []))
               (filter (\<lambda>outline. truthy (get outline (ustr ''xmlUrl''))) (findall_outline root)))),
        (case dropWhile (\<lambda>y. \<not> isl y)
          (map (\<lambda>outline. outline_record rt cat outline (get_default outline (ustr ''xmlUrl'') []))
               (filter (\<lambda>outline. truthy (get outline (ustr ''xmlUrl''))) (findall_outline root))) of
           [] \<Rightarrow> None
         | y # ys \<Rightarrow> Some (projl y)))"
    by (rule primary_walk_eq)
qed

theorem other_exception_no_fallback_witness:
  "parse_opml_file undecodable_runtime example_path =
     Inr ([], [Error_processing example_path (OtherException (ustr ''UnicodeDecodeError''))])
   \<and> primary_path undecodable_runtime example_path =
       ([], Some (OtherException (ustr ''UnicodeDecodeError'')))
   \<and> primary_path interrupted_runtime example_path =
       primary_walk interrupted_runtime (ustr ''news'') interrupted_tree
   \<and> parse_opml_file interrupted_runtime example_path =
       Inr ([\<lparr>title = ustr ''A'', description = [], url = ustr ''http://a.com/1'',
              feed_type = ustr ''rss'', category = ustr ''news''\<rparr>],
            [Error_processing example_path (OtherException (ustr ''ValueError''))])"
proof -
  note u = other_exception_no_fallback [of undecodable_runtime example_path "[]"
      "ustr ''UnicodeDecodeError''" "OtherException (ustr ''UnicodeDecodeError'')"]
  note i = other_exception_no_fallback [of interrupted_runtime example_path
      "[\<lparr>title = ustr ''A'', description = [], url = ustr ''http://a.com/1'',
              feed_type = ustr ''rss'', category = ustr ''news''\<rparr>]"
      "ustr ''ValueError''" _ interrupted_doc interrupted_tree]
  have a: "primary_path undecodable_runtime example_path =
       ([], Some (OtherException (ustr ''UnicodeDecodeError'')))"
    using u by (simp add: undecodable_fields)
  have b: "parse_opml_file undecodable_runtime example_path =
     Inr ([], [Error_processing example_path (OtherException (ustr ''UnicodeDecodeError''))])"
    using u a by (simp add: print_line_def undecodable_fields)
  have c: "primary_path interrupted_runtime example_path =
       primary_walk interrupted_runtime (ustr ''news'') interrupted_tree"
    using i by (simp add: interrupted_fields)
  have d: "parse_opml_file interrupted_runtime example_path =
       Inr ([\<lparr>title = ustr ''A'', description = [], url = ustr ''http://a.com/1'',
              feed_type = ustr ''rss'', category = ustr ''news''\<rparr>],
            [Error_processing example_path (OtherException (ustr ''ValueError''))])"
    using i interrupted_path by (simp add: print_line_def interrupted_fields)
  from a b c d show ?thesis by blast
qed

text \<open>
  C4 as stated fails on two files. On \<open>interrupted_doc\<close>, a well-formed file of three
  feeds, \<^verbatim>\<open>html.unescape\<close> raises \<^verbatim>\<open>ValueError\<close> on the title of the second outline: the
  record of the first outline is returned, not zero records, and one line is printed,
  that of line 103. On a file that is not UTF-8 the primary path fails with
  \<^verbatim>\<open>UnicodeDecodeError\<close> and \<open>parse_opml_file\<close> prints that one line too; had the fallback
  been attempted it would have read the file again, failed again and printed its own
  line (line 170), as the fallback called alone does.
\<close>

theorem fallback_after_other_exception_counterexample:
  "parse_opml_file interrupted_runtime example_path =
     Inr ([\<lparr>title = ustr ''A'', description = [], url = ustr ''http://a.com/1'',
            feed_type = ustr ''rss'', category = ustr ''news''\<rparr>],
          [Error_processing example_path (OtherException (ustr ''ValueError''))])
   \<and> parse_opml_file undecodable_runtime example_path =
       Inr ([], [Error_processing example_path (OtherException (ustr ''UnicodeDecodeError''))])
   \<and> parse_opml_file_fallback undecodable_runtime example_path [] =
       Inr ([], [Fallback_failed example_path (OtherException (ustr ''UnicodeDecodeError''))])"
proof -
  have a: "parse_opml_file interrupted_runtime example_path =
     Inr ([\<lparr>title = ustr ''A'', description = [], url = ustr ''http://a.com/1'',
            feed_type = ustr ''rss'', category = ustr ''news''\<rparr>],
          [Error_processing example_path (OtherException (ustr ''ValueError''))])"
    by (simp add: parse_opml_file_def interrupted_path print_line_def interrupted_fields)
  have b: "parse_opml_file undecodable_runtime example_path =
       Inr ([], [Error_processing example_path (OtherException (ustr ''UnicodeDecodeError''))])"
    by (simp add: parse_opml_file_def undecodable_path print_line_def undecodable_fields)
  have c: "parse_opml_file_fallback undecodable_runtime example_path [] =
       Inr ([], [Fallback_failed example_path (OtherException (ustr ''UnicodeDecodeError''))])"
    by (simp add: parse_opml_file_fallback_def print_line_def undecodable_fields)
  from a b c show ?thesis by blast
qed

text \<open>
  C6. The claim: a \<^verbatim>\<open>&nbsp;\<close> of the input becomes a space. The code, on \<^verbatim>\<open>a&nbsp;b\<close>:
  the substitution of line 27 runs first and \<^verbatim>\<open>nbsp;\<close> is not among the entities of its
  lookahead, so the \<^verbatim>\<open>&\<close> is escaped; the \<^verbatim>\<open>replace\<close> of line 30 then finds no
  \<^verbatim>\<open>&nbsp;\<close>, and the result is \<^verbatim>\<open>a&amp;nbsp;b\<close>, whatever the digit table.
\<close>

theorem nbsp_entity_is_escaped_not_replaced:
  "fix_xml_encoding isdigit (ustr ''a&nbsp;b'') = ustr ''a&amp;nbsp;b''"
  by (simp add: fix_xml_encoding_def fix_other_issues_def entity_follows_def ustr_def)

text \<open>
  C8, as the code has it. In both paths the title emitted is \<^verbatim>\<open>html.unescape\<close> of the
  value chosen: the \<^verbatim>\<open>text\<close> attribute if it is there and not empty, else the \<^verbatim>\<open>title\<close>
  attribute if it is there, else the empty string. In the primary path an attribute is
  an attribute of the parsed element; in the fallback it is what the pattern search of
  the source finds in the text of the matched tag (the first \<^verbatim>\<open>text="..."\<close>, the first
  \<^verbatim>\<open>title="..."\<close>). A record is the record of a qualifying outline only with that title,
  and when \<^verbatim>\<open>html.unescape\<close> raises on the value chosen there is no record. A qualifying
  outline appends the record these titles belong to, and a value without \<^verbatim>\<open>&\<close> is
  emitted unchanged, as in scenario 5.
\<close>

theorem title_is_unescaped_choice:
  "(outline_record rt cat outline u = Inr f \<longrightarrow>
      html_unescape rt (if truthy (get outline (ustr ''text''))
                        then get_default outline (ustr ''text'') []
                        else get_default outline (ustr ''title'') []) = Inr (title f))
   \<and> (html_unescape rt (if truthy (get outline (ustr ''text''))
                        then get_default outline (ustr ''text'') []
                        else get_default outline (ustr ''title'') []) = Inl e \<longrightarrow>
      outline_record rt cat outline u = Inl e)
   \<and> (match_record rt cat m = Inr f' \<longrightarrow>
      html_unescape rt (if truthy (attribute_search (ustr ''text'') (group0 m))
                        then (case attribute_search (ustr ''text'') (group0 m) of
                                Some v \<Rightarrow> v | None \<Rightarrow> [])
                        else (case attribute_search (ustr ''title'') (group0 m) of
                                Some v \<Rightarrow> v | None \<Rightarrow> [])) = Inr (title f'))
   \<and> (html_unescape rt (if truthy (attribute_search (ustr ''text'') (group0 m))
                        then (case attribute_search (ustr ''text'') (group0 m) of
                                Some v \<Rightarrow> v | None \<Rightarrow> [])
                        else (case attribute_search (ustr ''title'') (group0 m) of
                                Some v \<Rightarrow> v | None \<Rightarrow> [])) = Inl e' \<longrightarrow>
      match_record rt cat m = Inl e')
   \<and> (truthy (get outline (ustr ''xmlUrl'')) \<longrightarrow>
        outline_step rt cat feeds outline =
          (case outline_record rt cat outline (get_default outline (ustr ''xmlUrl'') []) of
             Inl e \<Rightarrow> Inl e
           | Inr f \<Rightarrow> Inr (feeds @ [f])))
   \<and> (group1 m \<noteq> [] \<longrightarrow>
        match_step rt cat feeds m =
          (case match_record rt cat m of Inl e \<Rightarrow> Inl e | Inr f \<Rightarrow> Inr (feeds @ [f])))
   \<and> (0x26 \<notin> set t \<longrightarrow> html_unescape rt t = Inr t)"
proof (intro conjI impI)
  assume "outline_record rt cat outline u = Inr f"
  then show "html_unescape rt (if truthy (get outline (ustr ''text''))
                        then get_default outline (ustr ''text'') []
                        else get_default outline (ustr ''title'') []) = Inr (title f)"
    by (auto simp: outline_record_def Let_def get_default_def html_unescape_Nil
        split: option.splits sum.splits if_splits)
next
  assume "html_unescape rt (if truthy (get outline (ustr ''text''))
                        then get_default outline (ustr ''text'') []
                        else get_default outline (ustr ''title'') []) = Inl e"
  then show "outline_record rt cat outline u = Inl e"
    by (auto simp: outline_record_def Let_def get_default_def html_unescape_Nil
        split: option.splits sum.splits if_splits)
next
  assume "match_record rt cat m = Inr f'"
  then show "html_unescape rt (if truthy (attribute_search (ustr ''text'') (group0 m))
                        then (case attribute_search (ustr ''text'') (group0 m) of
                                Some v \<Rightarrow> v | None \<Rightarrow> [])
                        else (case attribute_search (ustr ''title'') (group0 m) of
                                Some v \<Rightarrow> v | None \<Rightarrow> [])) = Inr (title f')"
    by (auto simp: match_record_def Let_def html_unescape_Nil
        split: option.splits sum.splits if_splits)
next
  assume "html_unescape rt (if truthy (attribute_search (ustr ''text'') (group0 m))
                        then (case attribute_search (ustr ''text'') (group0 m) of
                                Some v \<Rightarrow> v | None \<Rightarrow> [])
                        else (case attribute_search (ustr ''title'') (group0 m) of
                                Some v \<Rightarrow> v | None \<Rightarrow> [])) = Inl e'"
  then show "match_record rt cat m = Inl e'"
    by (auto simp: match_record_def Let_def html_unescape_Nil
        split: option.splits sum.splits if_splits)
next
  assume "truthy (get outline (ustr ''xmlUrl''))"
  then show "outline_step rt cat feeds outline =
          (case outline_record rt cat outline (get_default outline (ustr ''xmlUrl'') []) of
             Inl e \<Rightarrow> Inl e
           | Inr f \<Rightarrow> Inr (feeds @ [f]))"
    by (simp add: outline_step_eq)
next
  assume "group1 m \<noteq> []"
  then show "match_step rt cat feeds m =
          (case match_record rt cat m of Inl e \<Rightarrow> Inl e | Inr f \<Rightarrow> Inr (feeds @ [f]))"
    by (simp add: match_step_eq)
next
  assume "0x26 \<notin> set t"
  then show "html_unescape rt t = Inr t" by (rule html_unescape_plain)
qed

theorem title_is_unescaped_choice_witness:
  "outline_step scenario1_runtime (ustr ''news'') [] scenario5_outline =
     Inr [\<lparr>title = ustr ''Fallback Name'', description = [], url = ustr ''http://c.com'',
           feed_type = ustr ''rss'', category = ustr ''news''\<rparr>]
   \<and> fallback_scan scenario1_runtime (ustr ''news'') scenario5_tag =
       ([\<lparr>title = ustr ''Fallback Name'', description = [], url = ustr ''http://c.com'',
          feed_type = ustr ''rss'', category = ustr ''news''\<rparr>], None)
   \<and> html_unescape scenario1_runtime (ustr ''Fallback Name'') = Inr (ustr ''Fallback Name'')"
proof -
  let ?m = "\<lparr>m_start = 0, m_end = 61, group0 = scenario5_tag, group1 = ustr ''http://c.com''\<rparr>"
  let ?f = "\<lparr>title = ustr ''Fallback Name'', description = [], url = ustr ''http://c.com'',
           feed_type = ustr ''rss'', category = ustr ''news''\<rparr>"
  have amp: "0x26 \<notin> set (ustr ''Fallback Name'')" by (simp add: ustr_def)
  have g: "group1 ?m \<noteq> []" by (simp add: ustr_def)
  have ne: "ustr ''http://c.com'' \<noteq> []" by (simp add: ustr_def)
  note th = title_is_unescaped_choice [of scenario1_runtime "ustr ''news''" scenario5_outline
        "ustr ''http://c.com''" ?f _ ?m ?f _ "[]" "ustr ''Fallback Name''"]
  from th amp have a: "html_unescape scenario1_runtime (ustr ''Fallback Name'') =
      Inr (ustr ''Fallback Name'')" by blast
  have r': "match_record scenario1_runtime (ustr ''news'') ?m = Inr ?f"
    by (simp add: example_defs model_defs)
  from th g have "match_step scenario1_runtime (ustr ''news'') [] ?m =
      (case match_record scenario1_runtime (ustr ''news'') ?m of
         Inl e \<Rightarrow> Inl e | Inr f \<Rightarrow> Inr ([] @ [f]))" by blast
  then have b: "match_step scenario1_runtime (ustr ''news'') [] ?m = Inr [?f]"
    by (simp only: r' sum.case append_Nil)
  have s: "fallback_scan scenario1_runtime (ustr ''news'') scenario5_tag = ([?f], None)"
    by (simp add: fallback_scan_def scenario5_match b)
  have r: "outline_record scenario1_runtime (ustr ''news'') scenario5_outline (ustr ''http://c.com'') =
             Inr ?f"
    by (simp add: example_defs model_defs)
  have "truthy (get scenario5_outline (ustr ''xmlUrl''))" by (simp add: scenario5_gets ne)
  with th have "outline_step scenario1_runtime (ustr ''news'') [] scenario5_outline =
      (case outline_record scenario1_runtime (ustr ''news'') scenario5_outline
              (get_default scenario5_outline (ustr ''xmlUrl'') []) of
         Inl e \<Rightarrow> Inl e | Inr f \<Rightarrow> Inr ([] @ [f]))" by blast
  then have c: "outline_step scenario1_runtime (ustr ''news'') [] scenario5_outline = Inr [?f]"
    by (simp add: get_default_def scenario5_gets r)
  from a s c show ?thesis by blast
qed

text \<open>
  C8 as stated fails on \<open>twice_encoded_outline\<close>: the \<^verbatim>\<open>text\<close> attribute of the element is
  \<^verbatim>\<open>AT&amp;T\<close>, present and not empty, and the title emitted is \<^verbatim>\<open>AT&T\<close>.
\<close>

theorem title_equals_attribute_counterexample:
  "get twice_encoded_outline (ustr ''text'') = Some (ustr ''AT&amp;T'')
   \<and> outline_step twice_encoded_runtime (ustr ''news'') [] twice_encoded_outline =
       Inr [\<lparr>title = ustr ''AT&T'', description = [], url = ustr ''http://c.com'',
             feed_type = ustr ''rss'', category = ustr ''news''\<rparr>]
   \<and> ustr ''AT&T'' \<noteq> ustr ''AT&amp;T''"
  by (simp add: example_defs model_defs)

text \<open>
  C10, as the code has it. In the primary path \<^verbatim>\<open>rss\<close> is the type only when the element
  has no \<^verbatim>\<open>type\<close> attribute: the type emitted is the attribute's value whenever the
  attribute is there, so an empty value gives the empty string. In the fallback the type
  is what the search for \<^verbatim>\<open>type="..."\<close> finds in the text of the matched tag: the text
  between the leftmost \<^verbatim>\<open>type="\<close> and the next \<^verbatim>\<open>"\<close>, and \<^verbatim>\<open>rss\<close> only when the tag holds
  no \<^verbatim>\<open>type="\<close> followed by a \<^verbatim>\<open>"\<close>; a tag whose leftmost \<^verbatim>\<open>type="\<close> is followed at once
  by \<^verbatim>\<open>"\<close> gives the empty string. A qualifying outline appends the record these types
  belong to.
\<close>

theorem type_default_only_when_absent:
  "(outline_record rt cat outline u = Inr f \<longrightarrow>
      feed_type f = (case get outline (ustr ''type'') of None \<Rightarrow> ustr ''rss'' | Some v \<Rightarrow> v))
   \<and> (outline_record rt cat outline u = Inr f \<and> get outline (ustr ''type'') = Some [] \<longrightarrow>
      feed_type f = [])
   \<and> (match_record rt cat m = Inr f' \<longrightarrow>
      feed_type f' =
        (case attribute_search (ustr ''type'') (group0 m) of None \<Rightarrow> ustr ''rss'' | Some v \<Rightarrow> v))
   \<and> (attribute_search name text = Some v \<longrightarrow>
        (\<exists>pre post. text = pre @ name @ [0x3D, 0x22] @ v @ 0x22 # post \<and> 0x22 \<notin> set v
           \<and> (\<forall>pre' v' post'. text = pre' @ name @ [0x3D, 0x22] @ v' @ 0x22 # post'
                 \<longrightarrow> length pre \<le> length pre')))
   \<and> (attribute_search name text = None \<longrightarrow>
        (\<forall>pre v post. text \<noteq> pre @ name @ [0x3D, 0x22] @ v @ 0x22 # post))
   \<and> (truthy (get outline (ustr ''xmlUrl'')) \<longrightarrow>
        outline_step rt cat feeds outline =
          (case outline_record rt cat outline (get_default outline (ustr ''xmlUrl'') []) of
             Inl e \<Rightarrow> Inl e
           | Inr f \<Rightarrow> Inr (feeds @ [f])))
   \<and> (group1 m \<noteq> [] \<longrightarrow>
        match_step rt cat feeds m =
          (case match_record rt cat m of Inl e \<Rightarrow> Inl e | Inr f \<Rightarrow> Inr (feeds @ [f])))"
proof (intro conjI impI)
  assume "outline_record rt cat outline u = Inr f"
  then show "feed_type f = (case get outline (ustr ''type'') of None \<Rightarrow> ustr ''rss'' | Some v \<Rightarrow> v)"
    by (rule outline_record_fields(3))
next
  assume "outline_record rt cat outline u = Inr f \<and> get outline (ustr ''type'') = Some []"
  then show "feed_type f = []" using outline_record_fields(3)[of rt cat outline u f] by simp
next
  assume "match_record rt cat m = Inr f'"
  then show "feed_type f' =
        (case attribute_search (ustr ''type'') (group0 m) of None \<Rightarrow> ustr ''rss'' | Some v \<Rightarrow> v)"
    by (rule match_record_fields(3))
next
  assume "attribute_search name text = Some v"
  then show "\<exists>pre post. text = pre @ name @ [0x3D, 0x22] @ v @ 0x22 # post \<and> 0x22 \<notin> set v
           \<and> (\<forall>pre' v' post'. text = pre' @ name @ [0x3D, 0x22] @ v' @ 0x22 # post'
                 \<longrightarrow> length pre \<le> length pre')"
    by (rule attribute_search_Some)
next
  assume "attribute_search name text = None"
  then show "\<forall>pre v post. text \<noteq> pre @ name @ [0x3D, 0x22] @ v @ 0x22 # post"
    using attribute_search_None by blast
next
  assume "truthy (get outline (ustr ''xmlUrl''))"
  then show "outline_step rt cat feeds outline =
          (case outline_record rt cat outline (get_default outline (ustr ''xmlUrl'') []) of
             Inl e \<Rightarrow> Inl e
           | Inr f \<Rightarrow> Inr (feeds @ [f]))"
    by (simp add: outline_step_eq)
next
  assume "group1 m \<noteq> []"
  then show "match_step rt cat feeds m =
          (case match_record rt cat m of Inl e \<Rightarrow> Inl e | Inr f \<Rightarrow> Inr (feeds @ [f]))"
    by (simp add: match_step_eq)
qed

theorem type_default_only_when_absent_witness:
  "outline_step scenario1_runtime (ustr ''news'') [] empty_type_outline =
     Inr [\<lparr>title = [], description = [], url = ustr ''http://d.com'',
           feed_type = [], category = ustr ''news''\<rparr>]
   \<and> fallback_scan scenario1_runtime (ustr ''news'') empty_type_tag =
       ([\<lparr>title = [], description = [], url = ustr ''http://d.com'',
          feed_type = [], category = ustr ''news''\<rparr>], None)
   \<and> fallback_scan scenario1_runtime (ustr ''news'') scenario5_tag =
       ([\<lparr>title = ustr ''Fallback Name'', description = [], url = ustr ''http://c.com'',
          feed_type = ustr ''rss'', category = ustr ''news''\<rparr>], None)
   \<and> (\<exists>pre post. empty_type_tag = pre @ ustr ''type'' @ [0x3D, 0x22] @ [] @ 0x22 # post)
   \<and> scenario5_tag \<noteq> ustr ''<outline '' @ ustr ''type'' @ [0x3D, 0x22] @ [] @ 0x22 # []"
proof -
  let ?m = "\<lparr>m_start = 0, m_end = 39, group0 = empty_type_tag, group1 = ustr ''http://d.com''\<rparr>"
  let ?f = "\<lparr>title = [], description = [], url = ustr ''http://d.com'',
             feed_type = [], category = ustr ''news''\<rparr>"
  let ?m5 = "\<lparr>m_start = 0, m_end = 61, group0 = scenario5_tag, group1 = ustr ''http://c.com''\<rparr>"
  let ?f5 = "\<lparr>title = ustr ''Fallback Name'', description = [], url = ustr ''http://c.com'',
           feed_type = ustr ''rss'', category = ustr ''news''\<rparr>"
  have g: "group1 ?m \<noteq> []" "group1 ?m5 \<noteq> []" by (simp_all add: ustr_def)
  have ne: "ustr ''http://d.com'' \<noteq> []" by (simp add: ustr_def)
  have r: "outline_record scenario1_runtime (ustr ''news'') empty_type_outline (ustr ''http://d.com'')
             = Inr ?f"
    by (simp add: example_defs model_defs)
  have r': "match_record scenario1_runtime (ustr ''news'') ?m = Inr ?f"
    by (simp add: example_defs model_defs)
  have r5: "match_record scenario1_runtime (ustr ''news'') ?m5 = Inr ?f5"
    by (simp add: example_defs model_defs)
  note th = type_default_only_when_absent [of scenario1_runtime "ustr ''news''" empty_type_outline
      "ustr ''http://d.com''" ?f ?m ?f "ustr ''type''" empty_type_tag "[]" "[]"]
  note th5 = type_default_only_when_absent [of scenario1_runtime "ustr ''news''" empty_type_outline
      "ustr ''http://d.com''" ?f ?m5 ?f5 "ustr ''type''" scenario5_tag "[]" "[]"]
  have "truthy (get empty_type_outline (ustr ''xmlUrl''))" by (simp add: empty_type_facts ne)
  with th have "outline_step scenario1_runtime (ustr ''news'') [] empty_type_outline =
      (case outline_record scenario1_runtime (ustr ''news'') empty_type_outline
              (get_default empty_type_outline (ustr ''xmlUrl'') []) of
         Inl e \<Rightarrow> Inl e | Inr f \<Rightarrow> Inr ([] @ [f]))" by blast
  then have b: "outline_step scenario1_runtime (ustr ''news'') [] empty_type_outline = Inr [?f]"
    by (simp add: get_default_def empty_type_facts r)
  from th g(1) have "match_step scenario1_runtime (ustr ''news'') [] ?m =
      (case match_record scenario1_runtime (ustr ''news'') ?m of
         Inl e \<Rightarrow> Inl e | Inr f \<Rightarrow> Inr ([] @ [f]))" by blast
  then have "match_step scenario1_runtime (ustr ''news'') [] ?m = Inr [?f]"
    by (simp only: r' sum.case append_Nil)
  then have c: "fallback_scan scenario1_runtime (ustr ''news'') empty_type_tag = ([?f], None)"
    by (simp add: fallback_scan_def empty_type_match)
  from th5 g(2) have "match_step scenario1_runtime (ustr ''news'') [] ?m5 =
      (case match_record scenario1_runtime (ustr ''news'') ?m5 of
         Inl e \<Rightarrow> Inl e | Inr f \<Rightarrow> Inr ([] @ [f]))" by blast
  then have "match_step scenario1_runtime (ustr ''news'') [] ?m5 = Inr [?f5]"
    by (simp only: r5 sum.case append_Nil)
  then have c5: "fallback_scan scenario1_runtime (ustr ''news'') scenario5_tag = ([?f5], None)"
    by (simp add: fallback_scan_def scenario5_match)
  from th empty_type_facts(1)
  have d: "\<exists>pre post. empty_type_tag = pre @ ustr ''type'' @ [0x3D, 0x22] @ [] @ 0x22 # post"
    by blast
  from th5 scenario5_searches(4)
  have e: "scenario5_tag \<noteq> ustr ''<outline '' @ ustr ''type'' @ [0x3D, 0x22] @ [] @ 0x22 # []"
    by blast
  from b c c5 d e show ?thesis by blast
qed

text \<open>
  C10 as stated fails in the fallback, on two files that are not well-formed (one start
  tag, never closed) and whose outline has an empty \<^verbatim>\<open>type\<close> attribute. In the first the
  search for \<^verbatim>\<open>type="\<close> stops at the end of \<^verbatim>\<open>content-type="\<close> and the type emitted is
  \<^verbatim>\<open>atom\<close>; in the second white space stands around the \<^verbatim>\<open>=\<close>, the search finds nothing
  and the type emitted is the default \<^verbatim>\<open>rss\<close>.
\<close>

theorem type_default_counterexample:
  "get hyphen_type_outline (ustr ''type'') = Some []
   \<and> parse_opml_file hyphen_type_runtime example_path =
       Inr ([\<lparr>title = [], description = [], url = ustr ''http://d.com'',
              feed_type = ustr ''atom'', category = ustr ''news''\<rparr>],
            [Error_parsing example_path (ParseError (ustr ''no element found''))])
   \<and> get empty_type_outline (ustr ''type'') = Some []
   \<and> parse_opml_file spaced_type_runtime example_path =
       Inr ([\<lparr>title = [], description = [], url = ustr ''http://d.com'',
              feed_type = ustr ''rss'', category = ustr ''news''\<rparr>],
            [Error_parsing example_path (ParseError (ustr ''no element found''))])
   \<and> ustr ''atom'' \<noteq> [] \<and> ustr ''rss'' \<noteq> []"
proof -
  have a: "get hyphen_type_outline (ustr ''type'') = Some []"
    "get empty_type_outline (ustr ''type'') = Some []"
    "ustr ''atom'' \<noteq> []" "ustr ''rss'' \<noteq> []"
    by (simp_all add: example_defs model_defs)
  from a hyphen_type_parsed spaced_type_parsed show ?thesis by blast
qed

text \<open>
  C9. The primary path emits one record per outline with a non-empty \<^verbatim>\<open>xmlUrl\<close>, in the
  order of \<open>findall_outline\<close>, which is document order at any depth: each child that is an
  outline, then the outlines below it, child after child. The fallback emits one record
  per match with a non-empty URL, in the order of the matches; the matches lie from left
  to right in the text and do not overlap (each ends before the next starts), each is
  non-empty and its \<open>group0\<close> is the text between its offsets. When \<^verbatim>\<open>html.unescape\<close>
  raises, the records emitted are, in the same order, those before the first that
  raised; when no exception ends the loop they are all the records.
\<close>

theorem order_preserved:
  "primary_walk rt cat root =
     (map projr (takeWhile (\<lambda>y. \<not> isl y)
        (map (\<lambda>outline. outline_record rt cat outline (get_default outline (ustr ''xmlUrl'') []))
             (filter (\<lambda>outline. truthy (get outline (ustr ''xmlUrl''))) (findall_outline root)))),
      (case dropWhile (\<lambda>y. \<not> isl y)
        (map (\<lambda>outline. outline_record rt cat outline (get_default outline (ustr ''xmlUrl'') []))
             (filter (\<lambda>outline. truthy (get outline (ustr ''xmlUrl''))) (findall_outline root))) of
         [] \<Rightarrow> None
       | y # ys \<Rightarrow> Some (projl y)))
   \<and> (snd (primary_walk rt cat root) = None \<longrightarrow>
        map Inr (fst (primary_walk rt cat root)) =
          map (\<lambda>outline. outline_record rt cat outline (get_default outline (ustr ''xmlUrl'') []))
              (filter (\<lambda>outline. truthy (get outline (ustr ''xmlUrl''))) (findall_outline root)))
   \<and> findall_outline (Element t a cs) =
       concat (map (\<lambda>c. (if tag c = ustr ''outline'' then [c] else []) @ findall_outline c) cs)
   \<and> fallback_scan rt cat content =
       (map projr (takeWhile (\<lambda>y. \<not> isl y)
          (map (match_record rt cat)
               (filter (\<lambda>m. group1 m \<noteq> []) (finditer (outline_pattern rt) 0 content)))),
        (case dropWhile (\<lambda>y. \<not> isl y)
          (map (match_record rt cat)
               (filter (\<lambda>m. group1 m \<noteq> []) (finditer (outline_pattern rt) 0 content))) of
           [] \<Rightarrow> None
         | y # ys \<Rightarrow> Some (projl y)))
   \<and> (snd (fallback_scan rt cat content) = None \<longrightarrow>
        map Inr (fst (fallback_scan rt cat content)) =
          map (match_record rt cat)
              (filter (\<lambda>m. group1 m \<noteq> []) (finditer (outline_pattern rt) 0 content)))
   \<and> sorted_wrt (\<lambda>m m'. m_end m \<le> m_start m') (finditer (outline_pattern rt) 0 content)
   \<and> (\<forall>m \<in> set (finditer (outline_pattern rt) 0 content).
         m_start m < m_end m \<and> m_end m \<le> length content \<and>
         group0 m = take (m_end m - m_start m) (drop (m_start m) content))"
proof (intro conjI ballI impI)
  fix m assume m: "m \<in> set (finditer (outline_pattern rt) 0 content)"
  show "m_start m < m_end m" using outline_matches_progress[OF m] .
  show "m_end m \<le> length content" using finditer_bounds[OF m] by simp
  show "group0 m = take (m_end m - m_start m) (drop (m_start m) content)"
    using finditer_group0[OF m] by simp
next
  assume "snd (primary_walk rt cat root) = None"
  then show "map Inr (fst (primary_walk rt cat root)) =
          map (\<lambda>outline. outline_record rt cat outline (get_default outline (ustr ''xmlUrl'') []))
              (filter (\<lambda>outline. truthy (get outline (ustr ''xmlUrl''))) (findall_outline root))"
    unfolding primary_walk_eq snd_conv fst_conv by (rule until_raise_all)
next
  assume "snd (fallback_scan rt cat content) = None"
  then show "map Inr (fst (fallback_scan rt cat content)) =
          map (match_record rt cat)
              (filter (\<lambda>m. group1 m \<noteq> []) (finditer (outline_pattern rt) 0 content))"
    unfolding fallback_scan_eq snd_conv fst_conv by (rule until_raise_all)
qed (simp_all only: primary_walk_eq findall_outline_rec fallback_scan_eq finditer_sorted)

theorem order_preserved_witness:
  "map url (fst (primary_walk scenario1_runtime (ustr ''news'') nested_tree)) =
     [ustr ''http://a.com/1'', ustr ''http://b.com/2'']
   \<and> map (\<lambda>e. get e (ustr ''text'')) (findall_outline nested_tree) =
     [Some (ustr ''Folder''), Some (ustr ''A''), Some (ustr ''B'')]
   \<and> map url (fst (fallback_scan scenario1_runtime (ustr ''news'') nested_doc)) =
     [ustr ''http://a.com/1'', ustr ''http://b.com/2'']
   \<and> map (\<lambda>m. (m_start m, m_end m, group1 m))
         (finditer (outline_pattern scenario1_runtime) 0 nested_doc) =
     [(35, 78, ustr ''http://a.com/1''), (88, 131, ustr ''http://b.com/2'')]
   \<and> list_all (\<lambda>m. m_start m < m_end m \<and> m_end m \<le> length nested_doc)
        (finditer (outline_pattern scenario1_runtime) 0 nested_doc)
   \<and> fst (primary_walk interrupted_runtime (ustr ''news'') interrupted_tree) =
       [\<lparr>title = ustr ''A'', description = [], url = ustr ''http://a.com/1'',
         feed_type = ustr ''rss'', category = ustr ''news''\<rparr>]"
proof -
  note th = order_preserved [of scenario1_runtime "ustr ''news''" nested_tree
      "ustr ''opml''" "[]" "children nested_tree" nested_doc]
  from th have b: "list_all (\<lambda>m. m_start m < m_end m \<and> m_end m \<le> length nested_doc)
        (finditer (outline_pattern scenario1_runtime) 0 nested_doc)"
    by (simp add: list_all_iff)
  note ti = order_preserved [of interrupted_runtime "ustr ''news''" interrupted_tree
      "ustr ''opml''" "[]" "children interrupted_tree" "[]"]
  from ti have "fst (primary_walk interrupted_runtime (ustr ''news'') interrupted_tree) =
     map projr (takeWhile (\<lambda>y. \<not> isl y)
        (map (\<lambda>outline. outline_record interrupted_runtime (ustr ''news'') outline
                (get_default outline (ustr ''xmlUrl'') []))
             (filter (\<lambda>outline. truthy (get outline (ustr ''xmlUrl'')))
                (findall_outline interrupted_tree))))"
    by simp
  then have c: "fst (primary_walk interrupted_runtime (ustr ''news'') interrupted_tree) =
       [\<lparr>title = ustr ''A'', description = [], url = ustr ''http://a.com/1'',
         feed_type = ustr ''rss'', category = ustr ''news''\<rparr>]"
    by (simp add: interrupted_walked)
  from b c nested_walked nested_found nested_scanned nested_matches show ?thesis by blast
qed

text \<open>
  C5. Normalization is idempotent, for every text and every table of decimal digits that
  holds neither \<^verbatim>\<open>&\<close> nor one of the eight typographic code points the normalizer
  replaces; the table of Unicode, which \<^verbatim>\<open>\d\<close> reads, is such a table. After one pass
  every \<^verbatim>\<open>&\<close> starts an entity reference of line 27 and no typographic code point is
  left, so a second pass finds nothing to rewrite.
\<close>

theorem fix_xml_encoding_idempotent:
  assumes "\<not> isdigit 0x26" and "list_all (\<lambda>c. \<not> isdigit c) smart_typography"
  shows "fix_xml_encoding isdigit (fix_xml_encoding isdigit s) = fix_xml_encoding isdigit s"
proof -
  let ?t = "fix_xml_encoding isdigit s"
  have e0: "escaped isdigit (escape_bare_ampersands isdigit s)"
    using assms(1) by (rule escaped_escape)
  have e: "escaped isdigit ?t"
    unfolding fix_xml_encoding_def using e0 assms(2) by (rule fix_other_issues_escaped)
  have c: "list_all (\<lambda>c. c \<notin> set ?t) smart_typography"
    unfolding fix_xml_encoding_def using e0 by (rule fix_other_issues_clean)
  have "fix_xml_encoding isdigit ?t = fix_other_issues ?t"
    using escape_escaped[OF e] by (simp add: fix_xml_encoding_def)
  also have "\<dots> = ?t" using e c by (rule fix_other_issues_fixed)
  finally show ?thesis .
qed

theorem fix_xml_encoding_idempotent_witness:
  "fix_xml_encoding ascii_digit typography_sample =
     ustr ''Q&amp;A &amp; &amp;nbsp;&#8217;&#x2019; '' @ [0x27, 0x22] @ ustr ''... -'' @ [0x22]
   \<and> fix_xml_encoding ascii_digit (fix_xml_encoding ascii_digit typography_sample) =
       fix_xml_encoding ascii_digit typography_sample"
proof -
  have a: "\<not> ascii_digit 0x26" by (simp add: ascii_digit_def)
  have b: "list_all (\<lambda>c. \<not> ascii_digit c) smart_typography"
    by (simp add: ascii_digit_def smart_typography_def)
  from fix_xml_encoding_idempotent [OF a b, of typography_sample] typography_sample_normalized
  show ?thesis by blast
qed

text \<open>
  C7, for the documents the fallback's pattern is written for. Let the items of a
  document be plain: its elements are written with double-quoted attributes, white space
  of any length before each attribute and before the end of a tag, as empty-element tags
  or with content, between any inert text (character data, comments, declarations, tags
  written in another way, none of which starts like \<^verbatim>\<open><outline\<close> and white space); and
  in the elements named like \<^verbatim>\<open>outline\<close> the names and values are plain. Let the tables of
  \<^verbatim>\<open>re\<close> be the ASCII ones on ASCII, the primary path parse the document to a tree whose
  feed outlines carry the \<^verbatim>\<open>xmlUrl\<close> of a written outline (so no URL is written with an
  entity reference), and \<^verbatim>\<open>html.unescape\<close> not raise in the fallback scan. Then the
  primary path returns the records of the walk, and every \<open>(url, category)\<close> pair of them
  is a pair of the fallback scan run on the document.
\<close>

theorem fallback_superset_on_plain_documents:
  assumes tables: "ascii_tables rt"
    and plain: "list_all (plain_written rt) items"
    and readable: "read_file rt file_path = Inr (concat (map text_of items))"
    and parsed: "et_fromstring rt (fix_xml_encoding (re_digit rt) (concat (map text_of items)))
                   = Inr root"
    and faithful: "\<forall>x \<in> set (findall_outline root). truthy (get x (ustr ''xmlUrl'')) \<longrightarrow>
                     (\<exists>y \<in> set (written_outlines items).
                        get y (ustr ''xmlUrl'') = get x (ustr ''xmlUrl''))"
    and scanned: "snd (fallback_scan rt (path_stem rt file_path) (concat (map text_of items)))
                    = None"
  shows "primary_path rt file_path = primary_walk rt (path_stem rt file_path) root
     \<and> set (map url_category (fst (primary_path rt file_path)))
         \<subseteq> set (map url_category
                  (fst (fallback_scan rt (path_stem rt file_path) (concat (map text_of items)))))"
proof
  show p: "primary_path rt file_path = primary_walk rt (path_stem rt file_path) root"
    by (simp add: primary_path_def readable parsed)
  let ?cat = "path_stem rt file_path"
  let ?doc = "concat (map text_of items)"
  show "set (map url_category (fst (primary_path rt file_path)))
          \<subseteq> set (map url_category (fst (fallback_scan rt ?cat ?doc)))"
  proof
    fix q assume "q \<in> set (map url_category (fst (primary_path rt file_path)))"
    then have "q \<in> set (map url_category (fst (primary_walk rt ?cat root)))" by (simp add: p)
    from primary_walk_pairs[OF this] obtain x u
      where x: "x \<in> set (findall_outline root)" and u: "get x (ustr ''xmlUrl'') = Some u"
        and ne: "u \<noteq> []" and q: "q = (u, ?cat)" by blast
    from faithful x u ne obtain y where y: "y \<in> set (written_outlines items)"
      and yu: "get y (ustr ''xmlUrl'') = Some u" by auto
    from y have it: "y \<in> set (concat (map iter (concat (map forest items))))"
      and tg: "tag y = ustr ''outline''" by (simp_all add: written_outlines_def)
    have "captured rt ?doc = concat (map (tag_urls rt) (concat (map iter (concat (map forest items)))))"
      by (rule captured_document[OF tables plain])
    moreover have "u \<in> set (tag_urls rt y)"
      using feed_tag_urls[OF tg yu, of rt] by simp
    then have "u \<in> set (concat (map (tag_urls rt) (concat (map iter (concat (map forest items))))))"
      using it by auto
    ultimately have "u \<in> set (captured rt ?doc)" by simp
    with ne q show "q \<in> set (map url_category (fst (fallback_scan rt ?cat ?doc)))"
      unfolding fallback_scan_pairs[OF scanned] by auto
  qed
qed

theorem fallback_superset_on_plain_documents_witness:
  "map url_category (fst (primary_path listing_runtime example_path)) =
     [(ustr ''http://a.com/1'', ustr ''news''), (ustr ''http://c.com/3'', ustr ''news'')]
   \<and> (ustr ''http://a.com/1'', ustr ''news'')
       \<in> set (map url_category
                (fst (fallback_scan listing_runtime (ustr ''news'') (concat (map text_of listing_items)))))
   \<and> (ustr ''http://c.com/3'', ustr ''news'')
       \<in> set (map url_category
                (fst (fallback_scan listing_runtime (ustr ''news'') (concat (map text_of listing_items)))))
   \<and> map url_category (fst (primary_path scenario1_runtime example_path)) =
       [(ustr ''http://a.com/rss'', ustr ''news'')]
   \<and> (ustr ''http://a.com/rss'', ustr ''news'')
       \<in> set (map url_category (fst (fallback_scan scenario1_runtime (ustr ''news'') scenario1_doc)))"
proof -
  have lf: "\<forall>x \<in> set (findall_outline listing_tree). truthy (get x (ustr ''xmlUrl'')) \<longrightarrow>
              (\<exists>y \<in> set (written_outlines listing_items).
                 get y (ustr ''xmlUrl'') = get x (ustr ''xmlUrl''))"
    by (simp add: listing_tree_def listing_items_def listing_root_def findall_outline_def
        written_outlines_def get_def ustr_def)
  have ls: "snd (fallback_scan listing_runtime (path_stem listing_runtime example_path)
                   (concat (map text_of listing_items))) = None"
    by (rule fallback_scan_total) (rule listing_fields(4))
  have sf: "\<forall>x \<in> set (findall_outline scenario1_tree). truthy (get x (ustr ''xmlUrl'')) \<longrightarrow>
              (\<exists>y \<in> set (written_outlines [scenario1_written]).
                 get y (ustr ''xmlUrl'') = get x (ustr ''xmlUrl''))"
    by (simp add: scenario1_tree_def scenario1_written_def findall_outline_def
        written_outlines_def get_def ustr_def)
  have ss: "snd (fallback_scan scenario1_runtime (path_stem scenario1_runtime example_path)
                   (concat (map text_of [scenario1_written]))) = None"
    by (rule fallback_scan_total) (simp add: scenario1_fields)
  have sr: "read_file scenario1_runtime example_path = Inr (concat (map text_of [scenario1_written]))"
    unfolding scenario1_text by (rule scenario1_fields(1))
  note l = fallback_superset_on_plain_documents
    [OF listing_tables listing_plain listing_fields(1) listing_fields(2) lf ls]
  note s = fallback_superset_on_plain_documents
    [OF scenario1_tables scenario1_plain sr scenario1_fields(2) sf ss]
  from l have a: "map url_category (fst (primary_path listing_runtime example_path)) =
     [(ustr ''http://a.com/1'', ustr ''news''), (ustr ''http://c.com/3'', ustr ''news'')]"
    by (simp add: listing_fields(3) listing_walked)
  from s have b: "map url_category (fst (primary_path scenario1_runtime example_path)) =
       [(ustr ''http://a.com/rss'', ustr ''news'')]"
    by (simp add: scenario1_fields(3) scenario1_walked url_category_def)
  from l a have c: "(ustr ''http://a.com/1'', ustr ''news'')
       \<in> set (map url_category
                (fst (fallback_scan listing_runtime (ustr ''news'') (concat (map text_of listing_items)))))"
    "(ustr ''http://c.com/3'', ustr ''news'')
       \<in> set (map url_category
                (fst (fallback_scan listing_runtime (ustr ''news'') (concat (map text_of listing_items)))))"
    unfolding listing_fields(3) by auto
  from s b have d: "(ustr ''http://a.com/rss'', ustr ''news'')
       \<in> set (map url_category (fst (fallback_scan scenario1_runtime (ustr ''news'') scenario1_doc)))"
    unfolding scenario1_fields(3) scenario1_text by auto
  from a b c d show ?thesis by blast
qed

text \<open>
  C7 as stated fails on \<open>single_quoted_doc\<close>, a well-formed document: the primary path
  yields the record of its outline, and the fallback scan, whose pattern asks for
  \<^verbatim>\<open>xmlUrl="\<close>, yields nothing.
\<close>

theorem fallback_superset_counterexample:
  "primary_path single_quoted_runtime example_path =
     ([\<lparr>title = ustr ''Tech'', description = [], url = ustr ''http://a.com/rss'',
        feed_type = ustr ''rss'', category = ustr ''news''\<rparr>], None)
   \<and> fallback_scan single_quoted_runtime (ustr ''news'') single_quoted_doc = ([], None)"
proof -
  have "primary_path single_quoted_runtime example_path =
          primary_walk single_quoted_runtime (ustr ''news'') scenario1_tree"
    by (simp add: primary_path_def single_quoted_runtime_def example_runtime_def)
  moreover have "primary_walk single_quoted_runtime (ustr ''news'') scenario1_tree =
      ([\<lparr>title = ustr ''Tech'', description = [], url = ustr ''http://a.com/rss'',
           feed_type = ustr ''rss'', category = ustr ''news''\<rparr>], None)"
    by (simp add: example_defs model_defs)
  ultimately show ?thesis using single_quoted_scanned by simp
qed

end
